theory Spec2Isabelle
  imports Main "HOL-Library.AList" "HOL-Library.Multiset"
begin

section \<open>The worker side of the cluster protocol (lib/internal/cluster/child.js)\<close>

text \<open>
  The module keeps two process-wide maps, \<^verbatim>\<open>handles\<close> (primary-issued key to handle
  object) and \<^verbatim>\<open>indexes\<close> (endpoint tuple to its index set), and talks to three
  collaborators that are not part of it: the channel to the primary (\<^verbatim>\<open>sendHelper\<close>,
  \<^verbatim>\<open>process.disconnect\<close>, \<^verbatim>\<open>process.exit\<close>), the native handles and
  their owners (\<^verbatim>\<open>net.Server\<close>, \<^verbatim>\<open>dgram.Socket\<close>), and the caller of
  \<^verbatim>\<open>cluster._getServer\<close>. The model passes the module state explicitly and
  records every call to a collaborator as an event of a trace, in program order.
\<close>

subsection \<open>JavaScript values\<close>

datatype jsval = Undefined | Null | JNum int | JStr string

fun truthy :: "jsval \<Rightarrow> bool" where
  "truthy Undefined = False"
| "truthy Null = False"
| "truthy (JNum n) = (n \<noteq> 0)"
| "truthy (JStr s) = (s \<noteq> [])"

text \<open>An object with primitive properties, as \<^verbatim>\<open>message.sockname\<close> and the
  \<^verbatim>\<open>out\<close> argument of \<^verbatim>\<open>getsockname\<close>; \<^verbatim>\<open>ObjectAssign(out, src)\<close> is
  \<open>out ++ src\<close>.\<close>

type_synonym jsobj = "string \<rightharpoonup> jsval"

text \<open>Decimal rendering of a number, as \<^verbatim>\<open>ArrayPrototypeJoin\<close> applies it.\<close>

definition digit_char :: "nat \<Rightarrow> char" where
  "digit_char d = ''0123456789'' ! d"

function dec :: "nat \<Rightarrow> string" where
  "dec n = (if n < 10 then [digit_char n] else dec (n div 10) @ [digit_char (n mod 10)])"
  by pat_completeness auto
termination
  by (relation "measure id") auto

declare dec.simps [simp del]

fun join_elem :: "jsval \<Rightarrow> string" where
  "join_elem Undefined = []"
| "join_elem Null = []"
| "join_elem (JNum n) = (if n < 0 then CHR ''-'' # dec (nat (- n)) else dec (nat n))"
| "join_elem (JStr s) = s"

fun join :: "jsval list \<Rightarrow> string \<Rightarrow> string" where
  "join [] sep = []"
| "join [x] sep = join_elem x"
| "join (x # xs) sep = join_elem x @ sep @ join xs sep"

subsection \<open>Messages, events and objects\<close>

type_synonym hid = nat

record options =
  address :: jsval
  port :: int
  addressType :: jsval
  fd :: jsval

text \<open>Messages the worker sends to the primary.\<close>

datatype message =
    Online
  | QueryServer nat jsval options
  | ListeningMsg nat jsval options
  | CloseMsg jsval
  | AckMsg jsval bool
  | ExitedAfterDisconnect

text \<open>Messages the primary sends that \<^verbatim>\<open>onmessage\<close> looks at: \<open>NewConn key seq conn\<close>
  is \<^verbatim>\<open>{act: 'newconn', key, seq}\<close> with the connection handle \<open>conn\<close> attached.\<close>

datatype inbound = NewConn jsval jsval nat | DisconnectMsg | OtherMsg

text \<open>Calls to collaborators. \<open>NativeClose h c\<close> is the original \<^verbatim>\<open>close\<close> of a shared
  handle, applied by the patched one with its own arguments (\<open>c\<close>: a completion callback
  was among them); \<open>CloseDone h\<close> is a collaborator running the completion callback it was
  given for handle \<open>h\<close>; \<open>Callback e h\<close> is \<^verbatim>\<open>cb(e, h)\<close> of \<^verbatim>\<open>_getServer\<close>.\<close>

datatype event =
    Send message
  | OwnerClose hid
  | NativeClose hid bool
  | CloseDone hid
  | Callback jsval "hid option"
  | OnConnection hid nat
  | SetServerData jsval
  | ProcessDisconnect
  | ProcessExit int
  | WorkerEmitDisconnect

datatype error = AssertionError | TypeError

datatype wstate = WOnline | WListening | WDisconnecting | WDestroying

datatype hkind = Shared | Faux

text \<open>A handle object registered by this module. For a round-robin (faux) handle the fields
  are the variables its closures capture: the mutable \<^verbatim>\<open>key\<close>, \<^verbatim>\<open>indexesKey\<close>,
  \<^verbatim>\<open>index\<close> and \<^verbatim>\<open>message.sockname\<close> (\<^verbatim>\<open>getsockname\<close> is installed only when
  that is present). For a shared handle they are what the patched \<^verbatim>\<open>close\<close> captures.
  \<open>owner\<close> says whether \<^verbatim>\<open>handle[owner_symbol]\<close> is set and \<open>has_onconnection\<close>
  whether \<^verbatim>\<open>handle.onconnection\<close> is a function; both are set by the handle's user.\<close>

record hobj =
  kind :: hkind
  hkey :: jsval
  hindexesKey :: string
  hindex :: nat
  hsockname :: "jsobj option"
  owner :: bool
  has_onconnection :: bool

text \<open>An entry of \<^verbatim>\<open>indexes\<close>: the counter and the set of live indices. The counter is
  a JavaScript number that only ever grows by one from 0; \<open>nat\<close> is exact for it below
  \<open>2 ^ 53\<close>.\<close>

record indexSet =
  nextIndex :: nat
  iset :: "nat set"

text \<open>Callbacks handed to \<^verbatim>\<open>send\<close>: the reply handler of a query (whether
  \<^verbatim>\<open>obj._setServerData\<close> is a function, \<^verbatim>\<open>indexesKey\<close>, \<^verbatim>\<open>index\<close>) and
  \<^verbatim>\<open>() => process.disconnect()\<close>.\<close>

datatype callback = OnReply bool string nat | DoProcessDisconnect

record state =
  handles :: "(jsval \<times> hid) list"
  indexes :: "string \<rightharpoonup> indexSet"
  heap :: "hobj list"
  wstate :: wstate
  exitedAfterDisconnect :: bool
  chan_connected :: bool
  exit_on_disconnect :: bool
  callbacks :: "callback option list"
  trace :: "event list"

text \<open>The reply to a query, as its handler reads it.\<close>

record reply =
  errno :: jsval
  rkey :: jsval
  sockname :: "jsobj option"
  rdata :: jsval

text \<open>What \<^verbatim>\<open>_getServer\<close> reads of \<^verbatim>\<open>obj\<close>: the result of \<^verbatim>\<open>_getServerData()\<close>
  when the method exists, and whether \<^verbatim>\<open>_setServerData\<close> is a function.\<close>

record servobj =
  getServerData :: "jsval option"
  setServerData :: bool

text \<open>The platform: \<^verbatim>\<open>process.platform === 'win32'\<close> and \<^verbatim>\<open>path.resolve\<close>.\<close>

record platform =
  win32 :: bool
  resolve :: "string \<Rightarrow> string"

subsection \<open>The channel\<close>

definition emit :: "event \<Rightarrow> state \<Rightarrow> state" where
  "emit e st = st\<lparr>trace := trace st @ [e]\<rparr>"

text \<open>Modelled from the spec: \<^verbatim>\<open>sendHelper\<close> of \<^verbatim>\<open>internal/cluster/utils\<close> is not
  among the sources. The spec has all communication with the primary as asynchronous
  request and reply over an order-preserving channel: \<^verbatim>\<open>send(message)\<close> hands the message
  to the channel, and \<^verbatim>\<open>send(message, cb)\<close> also leaves \<open>cb\<close> with the helper until the
  primary's reply to that message arrives.\<close>

definition send :: "message \<Rightarrow> state \<Rightarrow> state" where
  "send m st = emit (Send m) st"

definition send_cb :: "message \<Rightarrow> callback \<Rightarrow> state \<Rightarrow> state" where
  "send_cb m cb st = (emit (Send m) st)\<lparr>callbacks := callbacks st @ [Some cb]\<rparr>"

subsection \<open>The handle registry (a SafeMap, in insertion order)\<close>

definition handles_get :: "jsval \<Rightarrow> state \<Rightarrow> hid option" where
  "handles_get k st = map_of (handles st) k"

definition handles_has :: "jsval \<Rightarrow> state \<Rightarrow> bool" where
  "handles_has k st = (handles_get k st \<noteq> None)"

definition handles_set :: "jsval \<Rightarrow> hid \<Rightarrow> state \<Rightarrow> state" where
  "handles_set k h st = st\<lparr>handles := AList.update k h (handles st)\<rparr>"

definition handles_delete :: "jsval \<Rightarrow> state \<Rightarrow> state" where
  "handles_delete k st = st\<lparr>handles := AList.delete k (handles st)\<rparr>"

subsection \<open>cluster._getServer and removeIndexesKey\<close>

definition indexesKey_of :: "platform \<Rightarrow> options \<Rightarrow> string" where
  "indexesKey_of pf opts =
     (let addr = (case address opts of
                    JStr s \<Rightarrow> if port opts < 0 \<and> \<not> win32 pf then JStr (resolve pf s) else JStr s
                  | a \<Rightarrow> a)
      in join [addr, JNum (port opts), addressType opts, fd opts] '':'')"

definition resolved :: "platform \<Rightarrow> options \<Rightarrow> options" where
  "resolved pf opts =
     (case address opts of
        JStr s \<Rightarrow> if port opts < 0 \<and> \<not> win32 pf then opts\<lparr>address := JStr (resolve pf s)\<rparr> else opts
      | a \<Rightarrow> opts)"

text \<open>Lines 77 to 84: the index set of the tuple is created when absent, the index is its
  \<^verbatim>\<open>nextIndex++\<close> and is added to the live set.\<close>

definition allocIndex :: "string \<Rightarrow> state \<Rightarrow> nat \<times> state" where
  "allocIndex k st =
     (let s = (case indexes st k of None \<Rightarrow> \<lparr>nextIndex = 0, iset = {}\<rparr> | Some s \<Rightarrow> s);
          i = nextIndex s
      in (i, st\<lparr>indexes := (indexes st)(k \<mapsto> \<lparr>nextIndex = i + 1, iset = insert i (iset s)\<rparr>)\<rparr>))"

definition query_data :: "servobj \<Rightarrow> jsval" where
  "query_data obj = (case getServerData obj of None \<Rightarrow> Null | Some v \<Rightarrow> v)"

definition getServer :: "platform \<Rightarrow> servobj \<Rightarrow> options \<Rightarrow> state \<Rightarrow> state" where
  "getServer pf obj opts st =
     (let k = indexesKey_of pf opts;
          (i, st1) = allocIndex k st
      in send_cb (QueryServer i (query_data obj) (resolved pf opts)) (OnReply (setServerData obj) k i) st1)"

text \<open>The handler of \<^verbatim>\<open>obj.once('listening', ...)\<close> (lines 111 to 117) for the query
  with index \<open>i\<close>, data \<open>d\<close> and options \<open>opts\<close>; \<open>aport\<close> is \<^verbatim>\<open>address.port\<close> when
  \<^verbatim>\<open>obj.address()\<close> is an object with a port.\<close>

definition listening :: "nat \<Rightarrow> jsval \<Rightarrow> options \<Rightarrow> int option \<Rightarrow> state \<Rightarrow> state" where
  "listening i d opts aport st =
     (let p = (case aport of None \<Rightarrow> port opts | Some v \<Rightarrow> if v \<noteq> 0 then v else port opts)
      in send (ListeningMsg i d (opts\<lparr>port := p\<rparr>)) (st\<lparr>wstate := WListening\<rparr>))"

definition removeIndexesKey :: "string \<Rightarrow> nat \<Rightarrow> state \<Rightarrow> state" where
  "removeIndexesKey k i st =
     (case indexes st k of
        None \<Rightarrow> st
      | Some s \<Rightarrow>
          if iset s - {i} = {} then st\<lparr>indexes := (indexes st)(k := None)\<rparr>
          else st\<lparr>indexes := (indexes st)(k \<mapsto> s\<lparr>iset := iset s - {i}\<rparr>)\<rparr>)"

subsection \<open>Handles: shared and round-robin\<close>

type_synonym result = "(error \<times> state) + state"

definition state_of :: "result \<Rightarrow> state" where
  "state_of r = (case r of Inl (e, st) \<Rightarrow> st | Inr st \<Rightarrow> st)"

definition new_hid :: "state \<Rightarrow> hid" where
  "new_hid st = length (heap st)"

definition set_obj :: "hid \<Rightarrow> hobj \<Rightarrow> state \<Rightarrow> state" where
  "set_obj h ob st = st\<lparr>heap := (heap st)[h := ob]\<rparr>"

text \<open>The patched \<^verbatim>\<open>close\<close> of a shared handle (lines 139 to 144); \<open>c\<close> says whether the
  caller passed a completion callback, which the original \<^verbatim>\<open>close\<close> receives.\<close>

definition close_shared :: "hid \<Rightarrow> bool \<Rightarrow> state \<Rightarrow> state" where
  "close_shared h c st =
     (let ob = heap st ! h;
          st1 = send (CloseMsg (hkey ob)) st;
          st2 = handles_delete (hkey ob) st1;
          st3 = removeIndexesKey (hindexesKey ob) (hindex ob) st2
      in emit (NativeClose h c) st3)"

text \<open>\<^verbatim>\<open>shared(message, {handle, indexesKey, index}, cb)\<close>: the handle object delivered with
  the reply enters the heap with its patched \<^verbatim>\<open>close\<close>; the assertion guards the
  registration.\<close>

definition shared :: "reply \<Rightarrow> string \<Rightarrow> nat \<Rightarrow> state \<Rightarrow> result" where
  "shared msg k i st =
     (let key = rkey msg;
          h = new_hid st;
          ob = \<lparr>kind = Shared, hkey = key, hindexesKey = k, hindex = i, hsockname = None,
                owner = False, has_onconnection = False\<rparr>;
          st1 = st\<lparr>heap := heap st @ [ob]\<rparr>
      in if handles_has key st1 then Inl (AssertionError, st1)
         else Inr (emit (Callback (errno msg) (Some h)) (handles_set key h st1)))"

text \<open>The \<^verbatim>\<open>close\<close> closure of a round-robin handle (lines 163 to 175). It takes no
  argument: a completion callback passed to it is dropped.\<close>

definition close_rr :: "hid \<Rightarrow> state \<Rightarrow> state" where
  "close_rr h st =
     (let ob = heap st ! h in
      if hkey ob = Undefined then st
      else
        let st1 = send (CloseMsg (hkey ob)) st;
            st2 = handles_delete (hkey ob) st1;
            st3 = removeIndexesKey (hindexesKey ob) (hindex ob) st2
        in set_obj h (ob\<lparr>hkey := Undefined\<rparr>) st3)"

text \<open>The \<^verbatim>\<open>getsockname\<close> closure (lines 177 to 181): the status returned and the
  \<^verbatim>\<open>out\<close> object afterwards; \<open>None\<close> when the handle has no such method.\<close>

definition getsockname :: "hobj \<Rightarrow> jsobj \<Rightarrow> (int \<times> jsobj) option" where
  "getsockname ob out =
     (case hsockname ob of
        None \<Rightarrow> None
      | Some sn \<Rightarrow> Some (0, if truthy (hkey ob) then out ++ sn else out))"

definition listen :: "hobj \<Rightarrow> jsval \<Rightarrow> int" where
  "listen ob backlog = 0"

definition rr :: "reply \<Rightarrow> string \<Rightarrow> nat \<Rightarrow> state \<Rightarrow> result" where
  "rr msg k i st =
     (if truthy (errno msg) then Inr (emit (Callback (errno msg) None) st)
      else
        let key = rkey msg;
            h = new_hid st;
            ob = \<lparr>kind = Faux, hkey = key, hindexesKey = k, hindex = i, hsockname = sockname msg,
                  owner = False, has_onconnection = False\<rparr>;
            st1 = st\<lparr>heap := heap st @ [ob]\<rparr>
        in if handles_has key st1 then Inl (AssertionError, st1)
           else Inr (emit (Callback (JNum 0) (Some h)) (handles_set key h st1)))"

text \<open>\<^verbatim>\<open>handle.close(...)\<close> on a registered handle object.\<close>

definition handle_close :: "hid \<Rightarrow> bool \<Rightarrow> state \<Rightarrow> state" where
  "handle_close h c st =
     (case kind (heap st ! h) of Shared \<Rightarrow> close_shared h c st | Faux \<Rightarrow> close_rr h st)"

text \<open>The callback of the query (lines 98 to 109); \<open>with_handle\<close> says whether a handle came
  with the reply.\<close>

definition on_reply :: "bool \<Rightarrow> string \<Rightarrow> nat \<Rightarrow> reply \<Rightarrow> bool \<Rightarrow> state \<Rightarrow> result" where
  "on_reply ssd k i msg with_handle st =
     (let st1 = (if ssd then emit (SetServerData (rdata msg)) st else st)
      in if with_handle then shared msg k i st1 else rr msg k i st1)"

subsection \<open>Round-robin connections\<close>

definition onconnection :: "jsval \<Rightarrow> jsval \<Rightarrow> nat \<Rightarrow> state \<Rightarrow> result" where
  "onconnection key seq conn st =
     (let server = handles_get key st;
          accepted = (server \<noteq> None);
          st1 = send (AckMsg seq accepted) st
      in case server of
           None \<Rightarrow> Inr st1
         | Some h \<Rightarrow>
             if has_onconnection (heap st1 ! h) then Inr (emit (OnConnection h conn) st1)
             else Inl (TypeError, st1))"

subsection \<open>Disconnect and destroy\<close>

text \<open>The variables of one \<^verbatim>\<open>_disconnect\<close> invocation that \<^verbatim>\<open>checkWaitingCount\<close> closes
  over.\<close>

record drain =
  waitingCount :: int
  primaryInitiated :: bool

definition checkWaitingCount :: "drain \<Rightarrow> state \<Rightarrow> drain \<times> state" where
  "checkWaitingCount d st =
     (let d1 = d\<lparr>waitingCount := waitingCount d - 1\<rparr> in
      if waitingCount d1 = 0 then
        (if primaryInitiated d1 then (d1, emit ProcessDisconnect st)
         else (d1, send_cb ExitedAfterDisconnect DoProcessDisconnect st))
      else (d1, st))"

text \<open>What the collaborators do when \<^verbatim>\<open>_disconnect\<close> calls them: whether the close that
  receives the completion callback (the owner's, or the original close of a shared handle)
  runs it before returning, and whether an owner's close calls the handle's own
  \<^verbatim>\<open>close()\<close>, as \<^verbatim>\<open>net.Server\<close> does. A callback not run at once stays with the
  collaborator, to be run later.\<close>

record closers =
  completes_sync :: "hid \<Rightarrow> bool"
  owner_closes :: "hid \<Rightarrow> bool"

text \<open>A collaborator runs the completion callback of handle \<open>h\<close>.\<close>

definition close_done :: "hid \<Rightarrow> drain \<times> state \<Rightarrow> drain \<times> state" where
  "close_done h ds = (case ds of (d, st) \<Rightarrow> checkWaitingCount d (emit (CloseDone h) st))"

text \<open>The body of \<^verbatim>\<open>handles.forEach\<close> (lines 234 to 237), with the list of callbacks still
  held by collaborators.\<close>

definition close_one :: "closers \<Rightarrow> hid \<Rightarrow> drain \<times> hid list \<times> state \<Rightarrow> drain \<times> hid list \<times> state" where
  "close_one env h acc =
     (case acc of (d, pend, st) \<Rightarrow>
        let d1 = d\<lparr>waitingCount := waitingCount d + 1\<rparr>;
            ob = heap st ! h
        in if owner ob then
             let st1 = emit (OwnerClose h) st;
                 st2 = (if owner_closes env h then handle_close h False st1 else st1)
             in if completes_sync env h then
                  (case close_done h (d1, st2) of (d2, st3) \<Rightarrow> (d2, pend, st3))
                else (d1, pend @ [h], st2)
           else
             (case kind ob of
                Shared \<Rightarrow>
                  let st1 = close_shared h True st
                  in if completes_sync env h then
                       (case close_done h (d1, st1) of (d2, st2) \<Rightarrow> (d2, pend, st2))
                     else (d1, pend @ [h], st1)
              | Faux \<Rightarrow> (d1, pend, close_rr h st)))"

text \<open>\<^verbatim>\<open>handles.forEach\<close> over the entries in insertion order; an entry deleted by an
  earlier close is not visited.\<close>

fun forEach_handles ::
  "closers \<Rightarrow> (jsval \<times> hid) list \<Rightarrow> drain \<times> hid list \<times> state \<Rightarrow> drain \<times> hid list \<times> state" where
  "forEach_handles env [] acc = acc"
| "forEach_handles env ((k, h) # rest) acc =
     (if handles_get k (snd (snd acc)) = Some h
      then forEach_handles env rest (close_one env h acc)
      else forEach_handles env rest acc)"

text \<open>\<^verbatim>\<open>_disconnect(primaryInitiated)\<close>: the drain variables, the completion callbacks still
  outstanding when it returns, and the state.\<close>

definition internal_disconnect :: "closers \<Rightarrow> bool \<Rightarrow> state \<Rightarrow> drain \<times> hid list \<times> state" where
  "internal_disconnect env p st =
     (let st0 = st\<lparr>exitedAfterDisconnect := True\<rparr>
      in case forEach_handles env (handles st0) (\<lparr>waitingCount = 1, primaryInitiated = p\<rparr>, [], st0) of
           (d, pend, st1) \<Rightarrow>
             (case checkWaitingCount d (st1\<lparr>handles := []\<rparr>) of (d', st2) \<Rightarrow> (d', pend, st2)))"

text \<open>Collaborators run outstanding completion callbacks, in the order given.\<close>

definition complete_all :: "hid list \<Rightarrow> drain \<times> state \<Rightarrow> drain \<times> state" where
  "complete_all order ds = fold close_done order ds"

text \<open>\<^verbatim>\<open>Worker.prototype.disconnect\<close>; \<open>None\<close> when the guard skips \<^verbatim>\<open>_disconnect\<close>.\<close>

definition Worker_disconnect :: "closers \<Rightarrow> state \<Rightarrow> (drain \<times> hid list) option \<times> state" where
  "Worker_disconnect env st =
     (if wstate st \<noteq> WDisconnecting \<and> wstate st \<noteq> WDestroying then
        (case internal_disconnect env False (st\<lparr>wstate := WDisconnecting\<rparr>) of
           (d, pend, st') \<Rightarrow> (Some (d, pend), st'))
      else (None, st))"

text \<open>\<^verbatim>\<open>Worker.prototype.destroy\<close>; \<open>chan_connected\<close> is what \<^verbatim>\<open>isConnected()\<close> returns and
  \<open>exit_on_disconnect\<close> the handler registered with \<^verbatim>\<open>process.once('disconnect', ...)\<close>.\<close>

definition destroy :: "state \<Rightarrow> state" where
  "destroy st =
     (if wstate st = WDestroying then st
      else
        let st1 = st\<lparr>exitedAfterDisconnect := True\<rparr>
        in if \<not> chan_connected st1 then emit (ProcessExit 0) st1
           else (send_cb ExitedAfterDisconnect DoProcessDisconnect (st1\<lparr>wstate := WDestroying\<rparr>))
                  \<lparr>exit_on_disconnect := True\<rparr>)"

subsection \<open>The message dispatcher\<close>

text \<open>\<^verbatim>\<open>cluster._setupWorker\<close>: the module state once the worker is set up.\<close>

definition setupWorker :: state where
  "setupWorker =
     \<lparr>handles = [], indexes = Map.empty, heap = [], wstate = WOnline,
      exitedAfterDisconnect = False, chan_connected = True, exit_on_disconnect = False,
      callbacks = [], trace = [Send Online]\<rparr>"

text \<open>The handler of the channel's \<^verbatim>\<open>'disconnect'\<close> event installed by
  \<^verbatim>\<open>_setupWorker\<close> (lines 40 to 48), followed by the one \<^verbatim>\<open>destroy\<close> installs.\<close>

definition on_disconnect :: "state \<Rightarrow> state" where
  "on_disconnect st =
     (let st1 = emit WorkerEmitDisconnect st
      in if \<not> exitedAfterDisconnect st1 then emit (ProcessExit 0) st1
         else if exit_on_disconnect st1 then emit (ProcessExit 0) st1
         else st1)"

definition onmessage :: "closers \<Rightarrow> inbound \<Rightarrow> state \<Rightarrow> (drain \<times> hid list) option \<times> result" where
  "onmessage env m st =
     (case m of
        NewConn key seq conn \<Rightarrow> (None, onconnection key seq conn st)
      | DisconnectMsg \<Rightarrow>
          (case internal_disconnect env True st of (d, pend, st') \<Rightarrow> (Some (d, pend), Inr st'))
      | OtherMsg \<Rightarrow> (None, Inr st))"

subsection \<open>Notions used to state the properties\<close>

text \<open>A handle whose close, as \<^verbatim>\<open>_disconnect\<close> invokes it, keeps the completion callback:
  the owner's close, or the original close behind the patched one of a shared handle. The
  close of a round-robin handle without owner does not. \<open>close_call\<close> is the call that
  receives the callback. In a well-formed registry the keys are distinct and every entry's
  handle object exists and carries the key it is registered under. \<open>completion_events\<close>
  lists the events of running completion callbacks when \<^verbatim>\<open>waitingCount\<close> is \<open>w\<close>.\<close>

definition takes_callback :: "hobj \<Rightarrow> bool" where
  "takes_callback ob = (owner ob \<or> kind ob = Shared)"

definition close_call :: "hobj \<Rightarrow> hid \<Rightarrow> event" where
  "close_call ob h = (if owner ob then OwnerClose h else NativeClose h True)"

definition wf_registry :: "state \<Rightarrow> bool" where
  "wf_registry st =
     (distinct (map fst (handles st)) \<and>
      list_all (\<lambda>(k, h). h < length (heap st) \<and> hkey (heap st ! h) = k) (handles st))"

definition final_event :: "bool \<Rightarrow> event" where
  "final_event p = (if p then ProcessDisconnect else Send ExitedAfterDisconnect)"

definition quiet :: "event list \<Rightarrow> bool" where
  "quiet evs = (Send ExitedAfterDisconnect \<notin> set evs \<and> ProcessDisconnect \<notin> set evs)"

fun completion_events :: "bool \<Rightarrow> int \<Rightarrow> hid list \<Rightarrow> event list" where
  "completion_events p w [] = []"
| "completion_events p w (h # hs) =
     CloseDone h # (if w = 1 then [final_event p] else []) @ completion_events p (w - 1) hs"

text \<open>From the index map \<open>ix\<close> to \<open>ix'\<close> index sets were at most released: every index set
  of \<open>ix'\<close> was there in \<open>ix\<close>, with the same counter and no index added.\<close>

definition shrinks :: "(string \<rightharpoonup> indexSet) \<Rightarrow> (string \<rightharpoonup> indexSet) \<Rightarrow> bool" where
  "shrinks ix ix' =
     (\<forall>k. case ix' k of
            None \<Rightarrow> True
          | Some s' \<Rightarrow> (case ix k of
                         None \<Rightarrow> False
                       | Some s \<Rightarrow> nextIndex s' = nextIndex s \<and> iset s' \<subseteq> iset s))"

definition next_of :: "string \<Rightarrow> state \<Rightarrow> nat" where
  "next_of k st = (case indexes st k of None \<Rightarrow> 0 | Some s \<Rightarrow> nextIndex s)"

subsection \<open>Concrete states and collaborators\<close>

definition no_closers :: closers where
  "no_closers = \<lparr>completes_sync = (\<lambda>h. False), owner_closes = (\<lambda>h. False)\<rparr>"

definition server_closers :: closers where
  "server_closers = \<lparr>completes_sync = (\<lambda>h. h = 0), owner_closes = (\<lambda>h. True)\<rparr>"

definition faux_ob :: hobj where
  "faux_ob = \<lparr>kind = Faux, hkey = JStr ''k1'', hindexesKey = ''a:80:4:'', hindex = 0,
     hsockname = Some [''port'' \<mapsto> JNum 80], owner = False, has_onconnection = False\<rparr>"

definition shared_ob :: hobj where
  "shared_ob = \<lparr>kind = Shared, hkey = JStr ''k0'', hindexesKey = ''b:53:udp4:'', hindex = 0,
     hsockname = None, owner = False, has_onconnection = False\<rparr>"

text \<open>One round-robin handle, as \<^verbatim>\<open>rr\<close> registers it: no owner is attached.\<close>

definition one_faux :: state where
  "one_faux = setupWorker\<lparr>handles := [(JStr ''k1'', 0)],
      indexes := [''a:80:4:'' \<mapsto> \<lparr>nextIndex = 1, iset = {0}\<rparr>], heap := [faux_ob]\<rparr>"

text \<open>A shared handle without owner and a round-robin handle owned by a listening server.\<close>

definition two_handles :: state where
  "two_handles = setupWorker\<lparr>handles := [(JStr ''k0'', 0), (JStr ''k1'', 1)],
      indexes := [''a:80:4:'' \<mapsto> \<lparr>nextIndex = 1, iset = {0}\<rparr>,
                  ''b:53:udp4:'' \<mapsto> \<lparr>nextIndex = 1, iset = {0}\<rparr>],
      heap := [shared_ob, faux_ob\<lparr>owner := True, has_onconnection := True\<rparr>],
      wstate := WListening\<rparr>"

text \<open>The worker after \<^verbatim>\<open>destroy()\<close> on a connected channel, once the channel has gone
  down and before the handlers of the \<^verbatim>\<open>'disconnect'\<close> event have run.\<close>

definition destroying_closed :: state where
  "destroying_closed = (destroy setupWorker)\<lparr>chan_connected := False\<rparr>"

definition dup_reply :: reply where
  "dup_reply = \<lparr>errno = Null, rkey = JStr ''k1'', sockname = None, rdata = Undefined\<rparr>"

definition tcp_reply :: reply where
  "tcp_reply = \<lparr>errno = Null, rkey = JStr ''k2'', sockname = Some [''port'' \<mapsto> JNum 8080],
     rdata = Undefined\<rparr>"

subsection \<open>The module as a transition system\<close>

text \<open>What can happen to the module, one call at a time: a caller asks for a server, the
  channel helper runs the callback of the \<open>n\<close>-th send with the primary's reply (each
  callback at most once), a handle's user calls its \<^verbatim>\<open>close\<close> or attaches an owner or an
  \<^verbatim>\<open>onconnection\<close> function, a message of the primary arrives, the worker's methods are
  called, a collaborator runs a completion callback it holds from the \<open>n\<close>-th
  \<^verbatim>\<open>_disconnect\<close>, a server starts listening (the handler of the \<open>n\<close>-th query runs, once), the channel goes down and its
  \<^verbatim>\<open>'disconnect'\<close> event fires. An uncaught error, or \<^verbatim>\<open>process.exit\<close>, ends the
  run.\<close>

datatype op =
    GetServer servobj options
  | Acked nat reply bool
  | Close hid bool
  | SetOwner hid
  | SetOnconnection hid
  | Received closers inbound
  | Disconnect closers
  | Destroy
  | Completed nat hid
  | ListeningEv nat "int option"
  | ChannelClosed
  | DisconnectEvent

record machine =
  mstate :: state
  drains :: "(drain \<times> hid list) list"
  queries :: "(nat \<times> jsval \<times> options) option list"
  halted :: bool

fun is_exit :: "event \<Rightarrow> bool" where
  "is_exit (ProcessExit c) = True"
| "is_exit e = False"

definition running :: "machine \<Rightarrow> bool" where
  "running m = (\<not> halted m \<and> \<not> list_ex is_exit (trace (mstate m)))"

definition land :: "result \<Rightarrow> machine \<Rightarrow> machine" where
  "land r m = (case r of Inl (e, st) \<Rightarrow> m\<lparr>mstate := st, halted := True\<rparr> | Inr st \<Rightarrow> m\<lparr>mstate := st\<rparr>)"

definition add_drain :: "(drain \<times> hid list) option \<Rightarrow> machine \<Rightarrow> machine" where
  "add_drain dr m = (case dr of None \<Rightarrow> m | Some dp \<Rightarrow> m\<lparr>drains := drains m @ [dp]\<rparr>)"

text \<open>Modelled from the spec: the dispatcher \<^verbatim>\<open>internal\<close> of
  \<^verbatim>\<open>internal/cluster/utils\<close> is not among the sources. On the primary's reply to the
  \<open>n\<close>-th message sent with a callback it runs that callback with the reply, once: a query
  has one reply.\<close>

definition acked :: "nat \<Rightarrow> reply \<Rightarrow> bool \<Rightarrow> state \<Rightarrow> result" where
  "acked n msg with_handle st =
     (if n < length (callbacks st) then
        (case callbacks st ! n of
           None \<Rightarrow> Inr st
         | Some cb \<Rightarrow>
             let st1 = st\<lparr>callbacks := (callbacks st)[n := None]\<rparr>
             in (case cb of
                   OnReply ssd k i \<Rightarrow> on_reply ssd k i msg with_handle st1
                 | DoProcessDisconnect \<Rightarrow> Inr (emit ProcessDisconnect st1)))
      else Inr st)"

definition step :: "platform \<Rightarrow> op \<Rightarrow> machine \<Rightarrow> machine" where
  "step pf a m =
     (if \<not> running m then m
      else
        let st = mstate m in
        case a of
          GetServer obj opts \<Rightarrow>
            m\<lparr>mstate := getServer pf obj opts st,
              queries := queries m @
                [Some (fst (allocIndex (indexesKey_of pf opts) st), query_data obj, resolved pf opts)]\<rparr>
        | Acked n msg with_handle \<Rightarrow> land (acked n msg with_handle st) m
        | Close h c \<Rightarrow> if h < length (heap st) then m\<lparr>mstate := handle_close h c st\<rparr> else m
        | SetOwner h \<Rightarrow>
            if h < length (heap st) then m\<lparr>mstate := set_obj h ((heap st ! h)\<lparr>owner := True\<rparr>) st\<rparr> else m
        | SetOnconnection h \<Rightarrow>
            if h < length (heap st)
            then m\<lparr>mstate := set_obj h ((heap st ! h)\<lparr>has_onconnection := True\<rparr>) st\<rparr> else m
        | Received env msg \<Rightarrow> (case onmessage env msg st of (dr, r) \<Rightarrow> add_drain dr (land r m))
        | Disconnect env \<Rightarrow> (case Worker_disconnect env st of (dr, st') \<Rightarrow> add_drain dr (m\<lparr>mstate := st'\<rparr>))
        | Destroy \<Rightarrow> m\<lparr>mstate := destroy st\<rparr>
        | Completed n h \<Rightarrow>
            if n < length (drains m) \<and> h \<in> set (snd (drains m ! n)) then
              (case close_done h (fst (drains m ! n), st) of
                 (d', st') \<Rightarrow> m\<lparr>mstate := st', drains := (drains m)[n := (d', remove1 h (snd (drains m ! n)))]\<rparr>)
            else m
        | ListeningEv n aport \<Rightarrow>
            if n < length (queries m) then
              (case queries m ! n of
                 None \<Rightarrow> m
               | Some (i, d, qo) \<Rightarrow>
                   m\<lparr>mstate := listening i d qo aport st, queries := (queries m)[n := None]\<rparr>)
            else m
        | ChannelClosed \<Rightarrow> m\<lparr>mstate := st\<lparr>chan_connected := False\<rparr>\<rparr>
        | DisconnectEvent \<Rightarrow> m\<lparr>mstate := on_disconnect (st\<lparr>chan_connected := False\<rparr>)\<rparr>)"

definition run :: "platform \<Rightarrow> op list \<Rightarrow> machine \<Rightarrow> machine" where
  "run pf ops m = fold (step pf) ops m"

definition boot :: machine where
  "boot = \<lparr>mstate = setupWorker, drains = [], queries = [], halted = False\<rparr>"

text \<open>The indices that the calls of \<^verbatim>\<open>_getServer\<close> for the endpoint key \<open>k\<close> obtain along a
  run, in order.\<close>

fun allocations :: "platform \<Rightarrow> string \<Rightarrow> op list \<Rightarrow> machine \<Rightarrow> nat list" where
  "allocations pf k [] m = []"
| "allocations pf k (a # ops) m =
     (case a of
        GetServer obj opts \<Rightarrow>
          if running m \<and> indexesKey_of pf opts = k then [fst (allocIndex k (mstate m))] else []
      | b \<Rightarrow> [])
     @ allocations pf k ops (step pf a m)"

text \<open>Along the run, the index set of \<open>k\<close> is never deleted from \<^verbatim>\<open>indexes\<close>.\<close>

fun never_collected :: "platform \<Rightarrow> string \<Rightarrow> op list \<Rightarrow> machine \<Rightarrow> bool" where
  "never_collected pf k [] m = True"
| "never_collected pf k (a # ops) m =
     ((indexes (mstate m) k = None \<or> indexes (mstate (step pf a m)) k \<noteq> None)
      \<and> never_collected pf k ops (step pf a m))"

text \<open>Index \<open>i\<close> of endpoint key \<open>k\<close> is live: the index set of \<open>k\<close> exists and holds
  \<open>i\<close>.\<close>

definition live :: "string \<Rightarrow> nat \<Rightarrow> state \<Rightarrow> bool" where
  "live k i st = (case indexes st k of None \<Rightarrow> False | Some s \<Rightarrow> i \<in> iset s)"

text \<open>A handle object whose \<^verbatim>\<open>close\<close> would release index \<open>i\<close> of endpoint key \<open>k\<close>: it
  carries that key and index and is a shared handle, whose patched \<^verbatim>\<open>close\<close> releases on
  every call, or a round-robin handle that is still open. A closed round-robin handle
  releases nothing. A query still waiting for its reply would create such a handle.\<close>

definition can_release :: "string \<Rightarrow> nat \<Rightarrow> hobj \<Rightarrow> bool" where
  "can_release k i ob =
     (hindexesKey ob = k \<and> hindex ob = i \<and> (kind ob = Shared \<or> hkey ob \<noteq> Undefined))"

fun waits_for :: "string \<Rightarrow> nat \<Rightarrow> callback option \<Rightarrow> bool" where
  "waits_for k i (Some (OnReply ssd k' i')) = (k' = k \<and> i' = i)"
| "waits_for k i c = False"

definition unreleasable :: "string \<Rightarrow> nat \<Rightarrow> state \<Rightarrow> bool" where
  "unreleasable k i st =
     (list_all (\<lambda>ob. \<not> can_release k i ob) (heap st)
      \<and> list_all (\<lambda>c. \<not> waits_for k i c) (callbacks st))"

text \<open>What holds in every state the module reaches: the registry holds handle objects that
  exist, and every live index is below the counter of its index set.\<close>

definition sane :: "state \<Rightarrow> bool" where
  "sane st =
     (list_all (\<lambda>(key, h). h < length (heap st)) (handles st)
      \<and> (\<forall>k. case indexes st k of None \<Rightarrow> True | Some s \<Rightarrow> (\<forall>j \<in> iset s. j < nextIndex s)))"

text \<open>The state is sane and, for a target \<open>Some (k, i)\<close>, index \<open>i\<close> of \<open>k\<close> is live and nothing
  is left that could release it.\<close>

definition leak :: "(string \<times> nat) option \<Rightarrow> state \<Rightarrow> bool" where
  "leak t st =
     (sane st \<and> (case t of None \<Rightarrow> True | Some (k, i) \<Rightarrow> live k i st \<and> unreleasable k i st))"

subsection \<open>Concrete runs\<close>

definition posix :: platform where
  "posix = \<lparr>win32 = False, resolve = (\<lambda>s. s)\<rparr>"

definition plain_server :: servobj where
  "plain_server = \<lparr>getServerData = None, setServerData = False\<rparr>"

definition port80 :: options where
  "port80 = \<lparr>address = JStr ''a'', port = 80, addressType = JNum 4, fd = Undefined\<rparr>"

definition rr_reply :: reply where
  "rr_reply = \<lparr>errno = Null, rkey = JStr ''a:80:4::0'', sockname = Some [''port'' \<mapsto> JNum 80],
     rdata = Undefined\<rparr>"

definition err_reply :: reply where
  "err_reply = \<lparr>errno = JNum (- 98), rkey = Undefined, sockname = None, rdata = Undefined\<rparr>"

text \<open>Listen, receive a round-robin handle, close it, listen again on the same endpoint.\<close>

definition listen_close_listen :: "op list" where
  "listen_close_listen =
     [GetServer plain_server port80, Acked 0 rr_reply False, Close 0 False, GetServer plain_server port80]"

text \<open>Listen, receive a shared handle, close it, listen again on the same endpoint, and have
  the second query fail.\<close>

definition listen_close_fail :: "op list" where
  "listen_close_fail =
     [GetServer plain_server port80, Acked 0 rr_reply True, Close 0 False,
      GetServer plain_server port80]"

text \<open>Listen twice on the same endpoint, receive a round-robin handle for the first query,
  close it, and listen a third time.\<close>

definition listen_twice_close_listen :: "op list" where
  "listen_twice_close_listen =
     [GetServer plain_server port80, GetServer plain_server port80, Acked 0 rr_reply False,
      Close 0 False, GetServer plain_server port80]"

text \<open>Listen, receive a round-robin handle, attach an owner to it, and call
  \<^verbatim>\<open>worker.disconnect()\<close>; the owner's close has not completed yet.\<close>

definition listen_disconnect :: "op list" where
  "listen_disconnect =
     [GetServer plain_server port80, Acked 0 rr_reply False, SetOwner 0, Disconnect no_closers]"

text \<open>Listen twice on the same endpoint and receive a round-robin handle for the first
  query: indices 0 and 1 are live and the handle holds index 0.\<close>

definition listen_twice :: "op list" where
  "listen_twice = [GetServer plain_server port80, GetServer plain_server port80, Acked 0 rr_reply False]"

section \<open>Properties\<close>

subsection \<open>Effects of the closes\<close>

lemmas chan_defs = emit_def send_def send_cb_def

lemmas reg_defs = handles_get_def handles_has_def handles_set_def handles_delete_def

lemma quiet_simps [simp]:
  "quiet []" "quiet (xs @ ys) = (quiet xs \<and> quiet ys)"
  "quiet (e # xs) = (e \<noteq> Send ExitedAfterDisconnect \<and> e \<noteq> ProcessDisconnect \<and> quiet xs)"
  by (auto simp: quiet_def)

lemma removeIndexesKey_frame [simp]:
  "trace (removeIndexesKey k i st) = trace st"
  "handles (removeIndexesKey k i st) = handles st"
  "heap (removeIndexesKey k i st) = heap st"
  "callbacks (removeIndexesKey k i st) = callbacks st"
  "wstate (removeIndexesKey k i st) = wstate st"
  "exitedAfterDisconnect (removeIndexesKey k i st) = exitedAfterDisconnect st"
  "chan_connected (removeIndexesKey k i st) = chan_connected st"
  "exit_on_disconnect (removeIndexesKey k i st) = exit_on_disconnect st"
  by (simp_all add: removeIndexesKey_def split: option.splits)

lemma close_shared_frame [simp]:
  "trace (close_shared h c st) = trace st @ [Send (CloseMsg (hkey (heap st ! h))), NativeClose h c]"
  "handles (close_shared h c st) = AList.delete (hkey (heap st ! h)) (handles st)"
  "heap (close_shared h c st) = heap st"
  "callbacks (close_shared h c st) = callbacks st"
  by (simp_all add: close_shared_def Let_def chan_defs reg_defs)

lemma close_rr_frame:
  "trace (close_rr h st) = trace st @ (if hkey (heap st ! h) = Undefined then [] else [Send (CloseMsg (hkey (heap st ! h)))])"
  "handles (close_rr h st) = (if hkey (heap st ! h) = Undefined then handles st else AList.delete (hkey (heap st ! h)) (handles st))"
  "heap (close_rr h st) = (if hkey (heap st ! h) = Undefined then heap st else (heap st)[h := (heap st ! h)\<lparr>hkey := Undefined\<rparr>])"
  "callbacks (close_rr h st) = callbacks st"
  by (simp_all add: close_rr_def Let_def chan_defs reg_defs set_obj_def)

lemma handle_close_frame:
  "\<exists>evs. trace (handle_close h c st) = trace st @ evs \<and> quiet evs"
  "handles (handle_close h c st) = handles st \<or> handles (handle_close h c st) = AList.delete (hkey (heap st ! h)) (handles st)"
  "length (heap (handle_close h c st)) = length (heap st)"
  "h' \<noteq> h \<Longrightarrow> heap (handle_close h c st) ! h' = heap st ! h'"
  "callbacks (handle_close h c st) = callbacks st"
  by (auto simp: handle_close_def close_rr_frame split: hkind.splits)

lemma checkWaitingCount_idle:
  "waitingCount d \<noteq> 1 \<Longrightarrow> checkWaitingCount d st = (d\<lparr>waitingCount := waitingCount d - 1\<rparr>, st)"
  by (simp add: checkWaitingCount_def Let_def)

lemma checkWaitingCount_fire:
  "waitingCount d = 1 \<Longrightarrow> checkWaitingCount d st =
     (d\<lparr>waitingCount := 0\<rparr>,
      if primaryInitiated d then emit ProcessDisconnect st
      else send_cb ExitedAfterDisconnect DoProcessDisconnect st)"
  by (simp add: checkWaitingCount_def Let_def)

lemma close_one_effect:
  assumes "close_one env h (d, pend, st) = (d', pend', st')" and "1 \<le> waitingCount d"
  shows "\<exists>evs. trace st' = trace st @ evs \<and> quiet evs
           \<and> (takes_callback (heap st ! h) \<longrightarrow> close_call (heap st ! h) h \<in> set evs)
           \<and> (takes_callback (heap st ! h) \<and> completes_sync env h \<longrightarrow> CloseDone h \<in> set evs)"
    and "callbacks st' = callbacks st"
    and "waitingCount d' = waitingCount d + (if takes_callback (heap st ! h) \<and> completes_sync env h then 0 else 1)"
    and "primaryInitiated d' = primaryInitiated d"
    and "pend' = pend @ (if takes_callback (heap st ! h) \<and> \<not> completes_sync env h then [h] else [])"
    and "length (heap st') = length (heap st)"
    and "\<And>h'. h' \<noteq> h \<Longrightarrow> heap st' ! h' = heap st ! h'"
    and "handles st' = handles st \<or> handles st' = AList.delete (hkey (heap st ! h)) (handles st)"
proof -
  have idle: "\<And>s. checkWaitingCount (d\<lparr>waitingCount := waitingCount d + 1\<rparr>) s = (d, s)"
    using assms(2) by (simp add: checkWaitingCount_idle)
  note fr = handle_close_frame [where h = h and c = False and st = "emit (OwnerClose h) st"]
  show "\<exists>evs. trace st' = trace st @ evs \<and> quiet evs
           \<and> (takes_callback (heap st ! h) \<longrightarrow> close_call (heap st ! h) h \<in> set evs)
           \<and> (takes_callback (heap st ! h) \<and> completes_sync env h \<longrightarrow> CloseDone h \<in> set evs)"
    using assms(1) fr(1)
    by (auto simp: close_one_def Let_def close_done_def idle takes_callback_def close_call_def
        emit_def close_rr_frame split: if_splits hkind.splits)
  show "callbacks st' = callbacks st"
    using assms(1) fr(5)
    by (auto simp: close_one_def Let_def close_done_def idle emit_def close_rr_frame
        split: if_splits hkind.splits)
  show "waitingCount d' = waitingCount d + (if takes_callback (heap st ! h) \<and> completes_sync env h then 0 else 1)"
    using assms(1)
    by (auto simp: close_one_def Let_def close_done_def idle takes_callback_def
        split: if_splits hkind.splits)
  show "primaryInitiated d' = primaryInitiated d"
    using assms(1)
    by (auto simp: close_one_def Let_def close_done_def idle split: if_splits hkind.splits)
  show "pend' = pend @ (if takes_callback (heap st ! h) \<and> \<not> completes_sync env h then [h] else [])"
    using assms(1)
    by (auto simp: close_one_def Let_def close_done_def idle takes_callback_def
        split: if_splits hkind.splits)
  show "length (heap st') = length (heap st)"
    using assms(1) fr(3)
    by (auto simp: close_one_def Let_def close_done_def idle emit_def close_rr_frame
        split: if_splits hkind.splits)
  show "\<And>h'. h' \<noteq> h \<Longrightarrow> heap st' ! h' = heap st ! h'"
    using assms(1) fr(4)
    by (auto simp: close_one_def Let_def close_done_def idle emit_def close_rr_frame
        split: if_splits hkind.splits)
  show "handles st' = handles st \<or> handles st' = AList.delete (hkey (heap st ! h)) (handles st)"
    using assms(1) fr(2)
    by (auto simp: close_one_def Let_def close_done_def idle emit_def close_rr_frame
        split: if_splits hkind.splits)
qed

lemma map_of_delete_other: "k' \<noteq> k \<Longrightarrow> map_of (AList.delete k xs) k' = map_of xs k'"
  by (simp add: delete_conv')

lemma forEach_effect:
  assumes "forEach_handles env es (d, pend, st) = (d', pend', st')"
    and "distinct (map fst es)"
    and "list_all (\<lambda>(k, h). handles_get k st = Some h \<and> h < length (heap st) \<and> hkey (heap st ! h) = k) es"
    and "1 \<le> waitingCount d"
  shows "(\<exists>evs. trace st' = trace st @ evs \<and> quiet evs \<and>
            list_all (\<lambda>(k, h). (takes_callback (heap st ! h) \<longrightarrow> close_call (heap st ! h) h \<in> set evs) \<and>
                (takes_callback (heap st ! h) \<and> completes_sync env h \<longrightarrow> CloseDone h \<in> set evs)) es)
     \<and> callbacks st' = callbacks st
     \<and> waitingCount d' = waitingCount d +
          int (length (filter (\<lambda>(k, h). \<not> (takes_callback (heap st ! h) \<and> completes_sync env h)) es))
     \<and> primaryInitiated d' = primaryInitiated d
     \<and> pend' = pend @ map snd (filter (\<lambda>(k, h). takes_callback (heap st ! h) \<and> \<not> completes_sync env h) es)"
  using assms
proof (induction es arbitrary: d pend st)
  case Nil
  then show ?case by simp
next
  case (Cons e es)
  obtain k h where e: "e = (k, h)" by (cases e)
  obtain d1 pend1 st1 where one: "close_one env h (d, pend, st) = (d1, pend1, st1)"
    by (cases "close_one env h (d, pend, st)")
  from Cons.prems(3) e have live: "handles_get k st = Some h" and hk: "hkey (heap st ! h) = k"
    by auto
  note eff = close_one_effect [OF one Cons.prems(4)]
  from Cons.prems(1) e live one
  have run: "forEach_handles env es (d1, pend1, st1) = (d', pend', st')" by simp
  have other: "h' \<noteq> h" "k' \<noteq> k" if "(k', h') \<in> set es" "hkey (heap st ! h') = k'" for k' h'
  proof -
    from Cons.prems(2) e that(1) show "k' \<noteq> k" by force
    with that(2) hk show "h' \<noteq> h" by auto
  qed
  have same: "heap st1 ! h' = heap st ! h'" if "(k', h') \<in> set es" for k' h'
  proof -
    from Cons.prems(3) that have "hkey (heap st ! h') = k'" by (auto simp: list_all_iff)
    with other that have "h' \<noteq> h" by blast
    then show ?thesis by (rule eff(7))
  qed
  have wf1: "list_all (\<lambda>(k, h). handles_get k st1 = Some h \<and> h < length (heap st1) \<and> hkey (heap st1 ! h) = k) es"
    unfolding list_all_iff
  proof (clarify)
    fix k' h' assume in_es: "(k', h') \<in> set es"
    from Cons.prems(3) in_es have pre: "handles_get k' st = Some h'" "h' < length (heap st)"
      "hkey (heap st ! h') = k'" by (auto simp: list_all_iff)
    from other [OF in_es pre(3)] have ne: "h' \<noteq> h" "k' \<noteq> k" by auto
    from eff(8) pre(1) ne(2) hk have "handles_get k' st1 = Some h'"
      by (auto simp: handles_get_def map_of_delete_other)
    moreover from eff(6) pre(2) have "h' < length (heap st1)" by simp
    moreover from same [OF in_es] pre(3) have "hkey (heap st1 ! h') = k'" by simp
    ultimately show "handles_get k' st1 = Some h' \<and> h' < length (heap st1) \<and> hkey (heap st1 ! h') = k'"
      by simp
  qed
  from eff(3) Cons.prems(4) have pos1: "1 \<le> waitingCount d1" by (simp split: if_splits)
  from Cons.prems(2) have dist: "distinct (map fst es)" by simp
  note ih = Cons.IH [OF run dist wf1 pos1]
  have cong_f: "filter (\<lambda>(k, h). P (heap st1 ! h) h) es = filter (\<lambda>(k, h). P (heap st ! h) h) es" for P
    by (rule filter_cong) (auto simp: same)
  from ih obtain evs2 where ev2: "trace st' = trace st1 @ evs2" "quiet evs2"
    "list_all (\<lambda>(k, h). (takes_callback (heap st1 ! h) \<longrightarrow> close_call (heap st1 ! h) h \<in> set evs2) \<and>
                (takes_callback (heap st1 ! h) \<and> completes_sync env h \<longrightarrow> CloseDone h \<in> set evs2)) es"
    by blast
  from eff(1) obtain evs1 where ev1: "trace st1 = trace st @ evs1" "quiet evs1"
    "takes_callback (heap st ! h) \<longrightarrow> close_call (heap st ! h) h \<in> set evs1"
    "takes_callback (heap st ! h) \<and> completes_sync env h \<longrightarrow> CloseDone h \<in> set evs1"
    by blast
  have A: "\<exists>evs. trace st' = trace st @ evs \<and> quiet evs \<and>
            list_all (\<lambda>(k, h). (takes_callback (heap st ! h) \<longrightarrow> close_call (heap st ! h) h \<in> set evs) \<and>
                (takes_callback (heap st ! h) \<and> completes_sync env h \<longrightarrow> CloseDone h \<in> set evs)) (e # es)"
  proof (intro exI [of _ "evs1 @ evs2"] conjI)
    show "trace st' = trace st @ evs1 @ evs2" using ev1(1) ev2(1) by simp
    show "quiet (evs1 @ evs2)" using ev1(2) ev2(2) by simp
    show "list_all (\<lambda>(k, h). (takes_callback (heap st ! h) \<longrightarrow> close_call (heap st ! h) h \<in> set (evs1 @ evs2)) \<and>
                (takes_callback (heap st ! h) \<and> completes_sync env h \<longrightarrow> CloseDone h \<in> set (evs1 @ evs2))) (e # es)"
      using ev1(3,4) ev2(3) e by (auto simp: list_all_iff same)
  qed
  have B: "callbacks st' = callbacks st" using ih eff(2) by simp
  have C: "waitingCount d' = waitingCount d +
          int (length (filter (\<lambda>(k, h). \<not> (takes_callback (heap st ! h) \<and> completes_sync env h)) (e # es)))"
    using ih eff(3) e
      cong_f [of "\<lambda>ob h. \<not> (takes_callback ob \<and> completes_sync env h)"]
    by simp
  have D: "primaryInitiated d' = primaryInitiated d" using ih eff(4) by simp
  have E: "pend' = pend @ map snd (filter (\<lambda>(k, h). takes_callback (heap st ! h) \<and> \<not> completes_sync env h) (e # es))"
    using ih eff(5) e
      cong_f [of "\<lambda>ob h. takes_callback ob \<and> \<not> completes_sync env h"]
    by simp
  from A B C D E show ?case by blast
qed

lemma forEach_quiet:
  assumes "forEach_handles env es (d, pend, st) = (d', pend', st')" and "1 \<le> waitingCount d"
  shows "(\<exists>evs. trace st' = trace st @ evs \<and> quiet evs) \<and> callbacks st' = callbacks st
     \<and> 1 \<le> waitingCount d' \<and> primaryInitiated d' = primaryInitiated d"
  using assms
proof (induction es arbitrary: d pend st)
  case Nil
  then show ?case by simp
next
  case (Cons e es)
  obtain k h where e: "e = (k, h)" by (cases e)
  show ?case
  proof (cases "handles_get k st = Some h")
    case True
    obtain d1 pend1 st1 where one: "close_one env h (d, pend, st) = (d1, pend1, st1)"
      by (cases "close_one env h (d, pend, st)")
    note eff = close_one_effect [OF one Cons.prems(2)]
    from Cons.prems(1) e True one
    have run: "forEach_handles env es (d1, pend1, st1) = (d', pend', st')" by simp
    from eff(3) Cons.prems(2) have pos1: "1 \<le> waitingCount d1" by (simp split: if_splits)
    from Cons.IH [OF run pos1] eff(1,2,4) show ?thesis
      by (metis append.assoc quiet_simps(2))
  next
    case False
    with Cons.prems(1) e have "forEach_handles env es (d, pend, st) = (d', pend', st')" by simp
    from Cons.IH [OF this Cons.prems(2)] show ?thesis .
  qed
qed

lemma complete_all_effect:
  assumes "complete_all order (d, st) = (d', st')"
  shows "trace st' = trace st @ completion_events (primaryInitiated d) (waitingCount d) order
     \<and> waitingCount d' = waitingCount d - int (length order)
     \<and> primaryInitiated d' = primaryInitiated d
     \<and> callbacks st' = callbacks st @
          (if \<not> primaryInitiated d \<and> 1 \<le> waitingCount d \<and> waitingCount d \<le> int (length order)
           then [Some DoProcessDisconnect] else [])"
  using assms
proof (induction order arbitrary: d st)
  case Nil
  then show ?case by (simp add: complete_all_def)
next
  case (Cons h hs)
  obtain d1 st1 where one: "close_done h (d, st) = (d1, st1)" by (cases "close_done h (d, st)")
  with Cons.prems have run: "complete_all hs (d1, st1) = (d', st')" by (simp add: complete_all_def)
  from one have step: "trace st1 = trace st @ CloseDone h # (if waitingCount d = 1 then [final_event (primaryInitiated d)] else [])"
    "waitingCount d1 = waitingCount d - 1" "primaryInitiated d1 = primaryInitiated d"
    "callbacks st1 = callbacks st @ (if waitingCount d = 1 \<and> \<not> primaryInitiated d then [Some DoProcessDisconnect] else [])"
    by (auto simp: close_done_def checkWaitingCount_def Let_def chan_defs final_event_def split: if_splits)
  from Cons.IH [OF run] step show ?case by auto
qed

lemma completion_events_quiet: "w \<le> 0 \<or> int (length hs) < w \<Longrightarrow> completion_events p w hs = map CloseDone hs"
  by (induction hs arbitrary: w) auto

lemma completion_events_last:
  "hs \<noteq> [] \<Longrightarrow> completion_events p (int (length hs)) hs = map CloseDone hs @ [final_event p]"
proof (induction hs)
  case Nil
  then show ?case by simp
next
  case (Cons h hs)
  show ?case
  proof (cases "hs = []")
    case True
    then show ?thesis by simp
  next
    case False
    with Cons.IH show ?thesis by simp
  qed
qed

lemma completion_events_no_ead: "Send ExitedAfterDisconnect \<notin> set (completion_events True w hs)"
  by (induction hs arbitrary: w) (auto simp: final_event_def)

lemma completion_events_count:
  "count_list (completion_events True w hs) ProcessDisconnect = (if 1 \<le> w \<and> w \<le> int (length hs) then 1 else 0)"
  by (induction hs arbitrary: w) (auto simp: final_event_def)

subsection \<open>The drain of one disconnect\<close>

lemma internal_disconnect_quiet:
  assumes "internal_disconnect env p st = (d, pend, st1)"
  shows "\<exists>evs. trace st1 = trace st @ evs @ (if waitingCount d = 0 then [final_event p] else []) \<and> quiet evs"
    and "0 \<le> waitingCount d"
    and "primaryInitiated d = p"
    and "callbacks st1 = callbacks st @ (if waitingCount d = 0 \<and> \<not> p then [Some DoProcessDisconnect] else [])"
    and "handles st1 = []"
proof -
  let ?st0 = "st\<lparr>exitedAfterDisconnect := True\<rparr>"
  let ?d0 = "\<lparr>waitingCount = 1, primaryInitiated = p\<rparr>"
  obtain dL pendL stL where loop: "forEach_handles env (handles ?st0) (?d0, [], ?st0) = (dL, pendL, stL)"
    by (cases "forEach_handles env (handles ?st0) (?d0, [], ?st0)")
  have "1 \<le> waitingCount ?d0" by simp
  from forEach_quiet [OF loop this] obtain evs where
    L: "trace stL = trace st @ evs" "quiet evs" "callbacks stL = callbacks st" "1 \<le> waitingCount dL"
       "primaryInitiated dL = p"
    by auto
  from assms loop have fin: "checkWaitingCount dL (stL\<lparr>handles := []\<rparr>) = (d, st1)" "pend = pendL"
    by (auto simp: internal_disconnect_def Let_def split: prod.splits)
  from fin(1) L show "\<exists>evs. trace st1 = trace st @ evs @ (if waitingCount d = 0 then [final_event p] else []) \<and> quiet evs"
    by (auto simp: checkWaitingCount_def Let_def chan_defs final_event_def split: if_splits)
  from fin(1) L show "0 \<le> waitingCount d"
    by (auto simp: checkWaitingCount_def Let_def split: if_splits)
  from fin(1) L show "primaryInitiated d = p"
    by (auto simp: checkWaitingCount_def Let_def split: if_splits)
  from fin(1) L show "callbacks st1 = callbacks st @ (if waitingCount d = 0 \<and> \<not> p then [Some DoProcessDisconnect] else [])"
    by (auto simp: checkWaitingCount_def Let_def chan_defs split: if_splits)
  from fin(1) show "handles st1 = []"
    by (auto simp: checkWaitingCount_def Let_def chan_defs split: if_splits)
qed

lemma internal_disconnect_effect:
  assumes "internal_disconnect env p st = (d, pend, st1)" and "wf_registry st"
  shows "\<exists>evs. trace st1 = trace st @ evs @ (if waitingCount d = 0 then [final_event p] else []) \<and> quiet evs \<and>
            list_all (\<lambda>(k, h). (takes_callback (heap st ! h) \<longrightarrow> close_call (heap st ! h) h \<in> set evs) \<and>
                (takes_callback (heap st ! h) \<and> completes_sync env h \<longrightarrow> CloseDone h \<in> set evs)) (handles st)"
    and "waitingCount d =
          int (length (filter (\<lambda>(k, h). \<not> (takes_callback (heap st ! h) \<and> completes_sync env h)) (handles st)))"
    and "pend = map snd (filter (\<lambda>(k, h). takes_callback (heap st ! h) \<and> \<not> completes_sync env h) (handles st))"
proof -
  let ?st0 = "st\<lparr>exitedAfterDisconnect := True\<rparr>"
  let ?d0 = "\<lparr>waitingCount = 1, primaryInitiated = p\<rparr>"
  obtain dL pendL stL where loop: "forEach_handles env (handles ?st0) (?d0, [], ?st0) = (dL, pendL, stL)"
    by (cases "forEach_handles env (handles ?st0) (?d0, [], ?st0)")
  have pos: "1 \<le> waitingCount ?d0" by simp
  from assms(2) have dist: "distinct (map fst (handles ?st0))" by (simp add: wf_registry_def)
  from assms(2) have wf0: "list_all (\<lambda>(k, h). handles_get k ?st0 = Some h \<and> h < length (heap ?st0) \<and> hkey (heap ?st0 ! h) = k) (handles ?st0)"
    by (auto simp: wf_registry_def list_all_iff handles_get_def)
  from forEach_effect [OF loop dist wf0 pos] obtain evs where
    L: "trace stL = trace st @ evs" "quiet evs"
       "list_all (\<lambda>(k, h). (takes_callback (heap st ! h) \<longrightarrow> close_call (heap st ! h) h \<in> set evs) \<and>
                (takes_callback (heap st ! h) \<and> completes_sync env h \<longrightarrow> CloseDone h \<in> set evs)) (handles st)"
       "waitingCount dL = 1 + int (length (filter (\<lambda>(k, h). \<not> (takes_callback (heap st ! h) \<and> completes_sync env h)) (handles st)))"
       "pendL = map snd (filter (\<lambda>(k, h). takes_callback (heap st ! h) \<and> \<not> completes_sync env h) (handles st))"
       "primaryInitiated dL = p"
    by auto
  from assms loop have fin: "checkWaitingCount dL (stL\<lparr>handles := []\<rparr>) = (d, st1)" "pend = pendL"
    by (auto simp: internal_disconnect_def Let_def split: prod.splits)
  from fin(1) L(4) show "waitingCount d =
          int (length (filter (\<lambda>(k, h). \<not> (takes_callback (heap st ! h) \<and> completes_sync env h)) (handles st)))"
    by (auto simp: checkWaitingCount_def Let_def split: if_splits)
  from fin(2) L(5) show "pend = map snd (filter (\<lambda>(k, h). takes_callback (heap st ! h) \<and> \<not> completes_sync env h) (handles st))"
    by simp
  from fin(1) L(1,2,6) have "trace st1 = trace st @ evs @ (if waitingCount d = 0 then [final_event p] else [])"
    by (auto simp: checkWaitingCount_def Let_def chan_defs final_event_def split: if_splits)
  with L(2,3) show "\<exists>evs. trace st1 = trace st @ evs @ (if waitingCount d = 0 then [final_event p] else []) \<and> quiet evs \<and>
            list_all (\<lambda>(k, h). (takes_callback (heap st ! h) \<longrightarrow> close_call (heap st ! h) h \<in> set evs) \<and>
                (takes_callback (heap st ! h) \<and> completes_sync env h \<longrightarrow> CloseDone h \<in> set evs)) (handles st)"
    by blast
qed

lemma drain_completes:
  assumes run: "internal_disconnect env p st = (d, pend, st1)"
    and wf: "wf_registry st"
    and all_cb: "list_all (\<lambda>(k, h). takes_callback (heap st ! h)) (handles st)"
    and perm: "mset order = mset pend"
    and fin: "complete_all order (d, st1) = (d', st')"
  shows "\<exists>evs. trace st' = trace st @ evs @ [final_event p] \<and> quiet evs \<and>
            list_all (\<lambda>(k, h). close_call (heap st ! h) h \<in> set evs \<and> CloseDone h \<in> set evs) (handles st)"
proof -
  let ?ns = "filter (\<lambda>(k, h). takes_callback (heap st ! h) \<and> \<not> completes_sync env h) (handles st)"
  note eff = internal_disconnect_effect [OF run wf]
  note q = internal_disconnect_quiet [OF run]
  from all_cb have same: "filter (\<lambda>(k, h). \<not> (takes_callback (heap st ! h) \<and> completes_sync env h)) (handles st) = ?ns"
    by (intro filter_cong) (auto simp: list_all_iff)
  with eff(2,3) have w: "waitingCount d = int (length pend)" by simp
  from perm have len: "length order = length pend" by (rule mset_eq_length)
  from perm have sets: "set order = set pend" by (rule mset_eq_setD)
  from eff(1) obtain evs where
    E: "trace st1 = trace st @ evs @ (if waitingCount d = 0 then [final_event p] else [])" "quiet evs"
       "list_all (\<lambda>(k, h). (takes_callback (heap st ! h) \<longrightarrow> close_call (heap st ! h) h \<in> set evs) \<and>
                (takes_callback (heap st ! h) \<and> completes_sync env h \<longrightarrow> CloseDone h \<in> set evs)) (handles st)"
    by blast
  note ce = complete_all_effect [OF fin]
  have done_all: "list_all (\<lambda>(k, h). close_call (heap st ! h) h \<in> set (evs @ map CloseDone order)
        \<and> CloseDone h \<in> set (evs @ map CloseDone order)) (handles st)"
    unfolding list_all_iff
  proof (clarify)
    fix k h assume m: "(k, h) \<in> set (handles st)"
    with all_cb have t: "takes_callback (heap st ! h)" by (auto simp: list_all_iff)
    with E(3) m have c: "close_call (heap st ! h) h \<in> set evs" by (auto simp: list_all_iff)
    have "CloseDone h \<in> set (evs @ map CloseDone order)"
    proof (cases "completes_sync env h")
      case True
      with E(3) m t show ?thesis by (auto simp: list_all_iff)
    next
      case False
      with m t have "h \<in> set pend" unfolding eff(3) by force
      with sets show ?thesis by auto
    qed
    with c show "close_call (heap st ! h) h \<in> set (evs @ map CloseDone order)
        \<and> CloseDone h \<in> set (evs @ map CloseDone order)" by simp
  qed
  have qd: "quiet (map CloseDone order)" by (auto simp: quiet_def)
  show ?thesis
  proof (cases "pend = []")
    case True
    with perm w have "order = []" "waitingCount d = 0" by auto
    with fin E(1) have "trace st' = trace st @ (evs @ map CloseDone order) @ [final_event p]"
      by (simp add: complete_all_def)
    moreover from E(2) qd have "quiet (evs @ map CloseDone order)" by simp
    ultimately show ?thesis using done_all by blast
  next
    case False
    with len have ne: "order \<noteq> []" by auto
    from w len have w': "waitingCount d = int (length order)" by simp
    with ne have nz: "waitingCount d \<noteq> 0" by simp
    from ce w' q(3) completion_events_last [OF ne, of p] E(1) nz
    have "trace st' = trace st @ (evs @ map CloseDone order) @ [final_event p]" by simp
    moreover from E(2) qd have "quiet (evs @ map CloseDone order)" by simp
    ultimately show ?thesis using done_all by blast
  qed
qed

subsection \<open>Unfolding and entry points\<close>

lemmas ex_defs = no_closers_def server_closers_def faux_ob_def shared_ob_def one_faux_def two_handles_def
  setupWorker_def destroying_closed_def dup_reply_def tcp_reply_def

lemmas close_defs = close_one_def close_done_def checkWaitingCount_def handle_close_def close_rr_def close_shared_def
  removeIndexesKey_def set_obj_def internal_disconnect_def complete_all_def Worker_disconnect_def onmessage_def

lemma onmessage_disconnect:
  "onmessage env DisconnectMsg st = (Some (d, pend), Inr st1) \<longleftrightarrow> internal_disconnect env True st = (d, pend, st1)"
  by (auto simp: onmessage_def split: prod.splits)

lemma Worker_disconnect_run:
  "Worker_disconnect env st = (Some (d, pend), st1) \<longleftrightarrow>
     wstate st \<noteq> WDisconnecting \<and> wstate st \<noteq> WDestroying \<and>
     internal_disconnect env False (st\<lparr>wstate := WDisconnecting\<rparr>) = (d, pend, st1)"
  by (auto simp: Worker_disconnect_def split: prod.splits)

subsection \<open>Index sets along a run\<close>

lemma shrinks_refl [simp]: "shrinks ix ix"
  by (auto simp: shrinks_def split: option.splits)

lemma shrinks_trans: "shrinks a b \<Longrightarrow> shrinks b c \<Longrightarrow> shrinks a c"
  unfolding shrinks_def
proof (intro allI)
  fix k assume ab: "\<forall>k. case b k of None \<Rightarrow> True
          | Some s' \<Rightarrow> (case a k of None \<Rightarrow> False
                       | Some s \<Rightarrow> nextIndex s' = nextIndex s \<and> iset s' \<subseteq> iset s)"
    and bc: "\<forall>k. case c k of None \<Rightarrow> True
          | Some s' \<Rightarrow> (case b k of None \<Rightarrow> False
                       | Some s \<Rightarrow> nextIndex s' = nextIndex s \<and> iset s' \<subseteq> iset s)"
  from ab [rule_format, of k] bc [rule_format, of k]
  show "case c k of None \<Rightarrow> True
          | Some s' \<Rightarrow> (case a k of None \<Rightarrow> False
                       | Some s \<Rightarrow> nextIndex s' = nextIndex s \<and> iset s' \<subseteq> iset s)"
    by (auto split: option.splits)
qed

lemma indexes_simps [simp]:
  "indexes (emit e st) = indexes st"
  "indexes (send msg st) = indexes st"
  "indexes (send_cb msg cb st) = indexes st"
  "indexes (handles_set key h st) = indexes st"
  "indexes (handles_delete key st) = indexes st"
  "indexes (set_obj h ob st) = indexes st"
  by (simp_all add: chan_defs reg_defs set_obj_def)

lemma shrinks_removeIndexesKey: "indexes st1 = ix \<Longrightarrow> shrinks ix (indexes (removeIndexesKey k i st1))"
  by (auto simp: shrinks_def removeIndexesKey_def split: option.splits)

lemma shrinks_close_shared: "shrinks (indexes st) (indexes (close_shared h c st))"
  by (simp add: close_shared_def Let_def shrinks_removeIndexesKey)

lemma shrinks_close_rr: "shrinks (indexes st) (indexes (close_rr h st))"
  by (simp add: close_rr_def Let_def shrinks_removeIndexesKey)

lemma shrinks_handle_close: "shrinks (indexes st) (indexes (handle_close h c st))"
  by (simp add: handle_close_def shrinks_close_shared shrinks_close_rr split: hkind.splits)

lemma indexes_checkWaitingCount [simp]: "indexes (snd (checkWaitingCount d st)) = indexes st"
  by (simp add: checkWaitingCount_def Let_def)

lemma indexes_close_done [simp]: "indexes (snd (close_done h (d, st))) = indexes st"
  by (simp add: close_done_def)

lemma shrinks_close_one: "shrinks (indexes st) (indexes (snd (snd (close_one env h (d, pend, st)))))"
  using shrinks_handle_close [of "emit (OwnerClose h) st" h False]
    shrinks_close_shared [of st h True] shrinks_close_rr [of st h]
  by (auto simp: close_one_def Let_def split_beta split: hkind.splits)

lemma shrinks_forEach: "shrinks (indexes (snd (snd acc))) (indexes (snd (snd (forEach_handles env es acc))))"
proof (induction es arbitrary: acc)
  case Nil
  then show ?case by simp
next
  case (Cons e es)
  obtain k h where e: "e = (k, h)" by (cases e)
  obtain d pend st where acc: "acc = (d, pend, st)" by (cases acc)
  show ?case
    using Cons.IH [of acc] Cons.IH [of "close_one env h acc"] shrinks_close_one [of st env h d pend]
    by (auto simp: e acc intro: shrinks_trans)
qed

lemma shrinks_internal_disconnect: "shrinks (indexes st) (indexes (snd (snd (internal_disconnect env p st))))"
proof -
  let ?st0 = "st\<lparr>exitedAfterDisconnect := True\<rparr>"
  let ?acc = "(\<lparr>waitingCount = 1, primaryInitiated = p\<rparr>, [], ?st0)"
  have "shrinks (indexes st) (indexes (snd (snd (forEach_handles env (handles ?st0) ?acc))))"
    using shrinks_forEach [of ?acc env "handles ?st0"] by simp
  moreover have "indexes (snd (checkWaitingCount d (st1\<lparr>handles := []\<rparr>))) = indexes st1" for st1 d
    by simp
  ultimately show ?thesis
    by (simp add: internal_disconnect_def Let_def split_beta)
qed

lemma indexes_result [simp]:
  "indexes (state_of (shared msg k i st)) = indexes st"
  "indexes (state_of (rr msg k i st)) = indexes st"
  "indexes (state_of (onconnection key seq conn st)) = indexes st"
  by (auto simp: shared_def rr_def onconnection_def state_of_def Let_def split: option.splits)

lemma indexes_on_reply [simp]: "indexes (state_of (on_reply ssd k i msg wh st)) = indexes st"
  by (simp add: on_reply_def Let_def)

lemma indexes_acked [simp]: "indexes (state_of (acked n msg wh st)) = indexes st"
  by (auto simp: acked_def Let_def state_of_def [of "Inr _"] split: option.splits callback.splits)

lemma mstate_land [simp]: "mstate (land r m) = state_of r"
  by (auto simp: land_def state_of_def split: sum.splits)

lemma mstate_add_drain [simp]: "mstate (add_drain dr m) = mstate m"
  by (simp add: add_drain_def split: option.splits)

lemma shrinks_step:
  assumes "\<And>obj opts. a \<noteq> GetServer obj opts"
  shows "shrinks (indexes (mstate m)) (indexes (mstate (step pf a m)))"
proof (cases "running m")
  case False
  then show ?thesis by (simp add: step_def)
next
  case True
  let ?st = "mstate m"
  show ?thesis
  proof (cases a)
    case (GetServer obj opts)
    with assms show ?thesis by blast
  next
    case (Acked n msg wh)
    with True show ?thesis by (simp add: step_def Let_def)
  next
    case (Close h c)
    with True shrinks_handle_close show ?thesis by (simp add: step_def Let_def)
  next
    case (SetOwner h)
    with True show ?thesis by (simp add: step_def Let_def)
  next
    case (SetOnconnection h)
    with True show ?thesis by (simp add: step_def Let_def)
  next
    case (Received env msg)
    have "shrinks (indexes ?st) (indexes (state_of (snd (onmessage env msg ?st))))"
      using shrinks_internal_disconnect [of ?st env True]
      by (auto simp: onmessage_def state_of_def [of "Inr _"] split_beta split: inbound.splits)
    with True Received show ?thesis by (simp add: step_def split_beta Let_def)
  next
    case (Disconnect env)
    have "shrinks (indexes ?st) (indexes (snd (Worker_disconnect env ?st)))"
      using shrinks_internal_disconnect [of "?st\<lparr>wstate := WDisconnecting\<rparr>" env False]
      by (auto simp: Worker_disconnect_def split_beta)
    with True Disconnect show ?thesis by (simp add: step_def split_beta Let_def)
  next
    case Destroy
    with True show ?thesis by (simp add: step_def destroy_def Let_def)
  next
    case (Completed n h)
    have "indexes (snd (close_done h (d, ?st))) = indexes ?st" for d by simp
    with True Completed show ?thesis by (auto simp: step_def split_beta Let_def)
  next
    case (ListeningEv n aport)
    with True show ?thesis
      by (auto simp: step_def listening_def Let_def split_beta split: option.splits)
  next
    case ChannelClosed
    with True show ?thesis by (simp add: step_def Let_def)
  next
    case DisconnectEvent
    with True show ?thesis by (simp add: step_def on_disconnect_def Let_def)
  qed
qed
lemma allocIndex_next: "fst (allocIndex k st) = next_of k st"
  by (simp add: allocIndex_def next_of_def Let_def split: option.splits)

lemma getServer_sends_index:
  "trace (getServer pf obj opts st) = trace st @
     [Send (QueryServer (fst (allocIndex (indexesKey_of pf opts) st)) (query_data obj) (resolved pf opts))]"
  by (simp add: getServer_def Let_def split_beta chan_defs allocIndex_def)

lemma indexes_getServer:
  "indexes (getServer pf obj opts st) = indexes (snd (allocIndex (indexesKey_of pf opts) st))"
  by (simp add: getServer_def Let_def split_beta)

lemma next_of_allocIndex:
  "next_of k (snd (allocIndex k' st)) = (if k' = k then Suc (next_of k st) else next_of k st)"
  by (simp add: allocIndex_def next_of_def Let_def split: option.splits)

lemma next_of_cong: "indexes st' = indexes st \<Longrightarrow> next_of k st' = next_of k st"
  by (simp add: next_of_def)

lemma step_getServer_next:
  "running m \<Longrightarrow> next_of k (mstate (step pf (GetServer obj opts) m)) =
     (if indexesKey_of pf opts = k then Suc (next_of k (mstate m)) else next_of k (mstate m))"
  using next_of_cong [OF indexes_getServer, of k pf obj opts "mstate m"]
  by (simp add: step_def Let_def next_of_allocIndex)

lemma step_idle: "\<not> running m \<Longrightarrow> step pf a m = m"
  by (simp add: step_def)

lemma shrinks_next:
  "shrinks (indexes st) (indexes st') \<Longrightarrow> indexes st k = None \<or> indexes st' k \<noteq> None \<Longrightarrow>
     next_of k st \<le> next_of k st'"
  unfolding shrinks_def next_of_def
  by (erule allE [of _ k]) (auto split: option.splits)

lemma step_next_mono:
  assumes "indexes (mstate m) k = None \<or> indexes (mstate (step pf a m)) k \<noteq> None"
  shows "next_of k (mstate m) \<le> next_of k (mstate (step pf a m))"
proof (cases "running m")
  case False
  then show ?thesis by (simp add: step_idle)
next
  case True
  show ?thesis
  proof (cases "\<exists>obj opts. a = GetServer obj opts")
    case True
    with \<open>running m\<close> show ?thesis by (auto simp: step_getServer_next)
  next
    case False
    then have "shrinks (indexes (mstate m)) (indexes (mstate (step pf a m)))"
      by (intro shrinks_step) blast
    from shrinks_next [OF this assms] show ?thesis .
  qed
qed

lemma allocations_bound:
  assumes "never_collected pf k ops m"
  shows "sorted_wrt (<) (allocations pf k ops m) \<and> (\<forall>j \<in> set (allocations pf k ops m). next_of k (mstate m) \<le> j)"
  using assms
proof (induction ops arbitrary: m)
  case Nil
  then show ?case by simp
next
  case (Cons a ops)
  let ?m' = "step pf a m"
  from Cons.prems have kept: "indexes (mstate m) k = None \<or> indexes (mstate ?m') k \<noteq> None"
    and rest: "never_collected pf k ops ?m'" by simp_all
  from Cons.IH [OF rest] have ih: "sorted_wrt (<) (allocations pf k ops ?m')"
    "\<And>j. j \<in> set (allocations pf k ops ?m') \<Longrightarrow> next_of k (mstate ?m') \<le> j" by auto
  note mono = step_next_mono [OF kept]
  show ?case
  proof (cases "\<exists>obj opts. a = GetServer obj opts \<and> running m \<and> indexesKey_of pf opts = k")
    case True
    then obtain obj opts where a: "a = GetServer obj opts" "running m" "indexesKey_of pf opts = k" by blast
    then have hd: "allocations pf k (a # ops) m = next_of k (mstate m) # allocations pf k ops ?m'"
      by (simp add: allocIndex_next)
    from a have "next_of k (mstate ?m') = Suc (next_of k (mstate m))"
      by (simp add: step_getServer_next)
    with ih hd show ?thesis by (fastforce simp: Suc_le_eq)
  next
    case False
    then have "allocations pf k (a # ops) m = allocations pf k ops ?m'"
      by (auto split: op.splits)
    with ih mono show ?thesis by (auto intro: order_trans)
  qed
qed

lemmas run_defs = ex_defs close_defs chan_defs reg_defs Let_def step_def running_def boot_def posix_def plain_server_def
  port80_def rr_reply_def err_reply_def getServer_def allocIndex_def indexesKey_of_def resolved_def
  query_data_def acked_def on_reply_def rr_def shared_def land_def new_hid_def dec.simps digit_char_def

subsection \<open>An index that nothing can release\<close>

lemma leak_cong:
  "indexes st' = indexes st \<Longrightarrow> heap st' = heap st \<Longrightarrow> callbacks st' = callbacks st \<Longrightarrow>
   handles st' = handles st \<Longrightarrow> leak t st' = leak t st"
  by (simp add: leak_def sane_def live_def unreleasable_def split: option.splits prod.splits)

lemma frame_emit [simp]:
  "heap (emit e st) = heap st" "callbacks (emit e st) = callbacks st" "handles (emit e st) = handles st"
  "heap (send msg st) = heap st" "callbacks (send msg st) = callbacks st" "handles (send msg st) = handles st"
  "heap (send_cb msg cb st) = heap st" "callbacks (send_cb msg cb st) = callbacks st @ [Some cb]"
  "handles (send_cb msg cb st) = handles st"
  by (simp_all add: chan_defs)

lemma leak_emit [simp]: "leak t (emit e st) = leak t st" "leak t (send msg st) = leak t st"
  by (rule leak_cong; simp)+

lemma leak_send_cb [simp]: "leak t (send_cb msg DoProcessDisconnect st) = leak t st"
  by (simp add: leak_def sane_def live_def unreleasable_def split: option.splits prod.splits)

lemma leak_sane: "leak t st \<Longrightarrow> sane st"
  by (simp add: leak_def)

lemma leak_removeIndexesKey:
  assumes "t \<noteq> Some (k', i')" and "leak t st"
  shows "leak t (removeIndexesKey k' i' st)"
proof -
  have s: "sane (removeIndexesKey k' i' st)"
    using leak_sane [OF assms(2)]
    by (auto simp: sane_def removeIndexesKey_def split: option.splits)
  show ?thesis
  proof (cases t)
    case None
    with s show ?thesis by (simp add: leak_def)
  next
    case (Some p)
    obtain k i where p: "p = (k, i)" by (cases p)
    from assms Some p have ne: "\<not> (k' = k \<and> i' = i)" by auto
    from assms(2) Some p have "live k i st" "unreleasable k i st" by (simp_all add: leak_def)
    with ne have "live k i (removeIndexesKey k' i' st)" "unreleasable k i (removeIndexesKey k' i' st)"
      by (auto simp: live_def unreleasable_def removeIndexesKey_def split: option.splits)
    with s Some p show ?thesis by (simp add: leak_def)
  qed
qed

lemma leak_obj:
  assumes "leak t st" and "h < length (heap st)"
    and "kind (heap st ! h) = Shared \<or> hkey (heap st ! h) \<noteq> Undefined"
  shows "t \<noteq> Some (hindexesKey (heap st ! h), hindex (heap st ! h))"
  using assms by (auto simp: leak_def unreleasable_def list_all_length can_release_def)

lemma leak_handles_delete: "leak t st \<Longrightarrow> leak t (handles_delete key st)"
  by (auto simp: leak_def sane_def live_def unreleasable_def handles_delete_def list_all_iff
      AList.delete_eq split: option.splits)

lemma heap_handles_delete [simp]: "heap (handles_delete key st) = heap st"
  by (simp add: handles_delete_def)

lemma leak_close_shared:
  assumes "leak t st" and "h < length (heap st)" and "kind (heap st ! h) = Shared"
  shows "leak t (close_shared h c st)"
proof -
  let ?ob = "heap st ! h"
  from leak_obj [OF assms(1,2)] assms(3) have ne: "t \<noteq> Some (hindexesKey ?ob, hindex ?ob)" by simp
  from assms(1) have "leak t (handles_delete (hkey ?ob) (send (CloseMsg (hkey ?ob)) st))"
    by (simp add: leak_handles_delete)
  from leak_removeIndexesKey [OF ne this] show ?thesis
    by (simp add: close_shared_def Let_def)
qed

lemma leak_set_obj:
  assumes "leak t st" and "h < length (heap st)"
    and "\<And>k i. t = Some (k, i) \<Longrightarrow> \<not> can_release k i ob"
  shows "leak t (set_obj h ob st)"
proof -
  have s: "sane (set_obj h ob st)"
    using leak_sane [OF assms(1)] by (simp add: sane_def set_obj_def)
  show ?thesis
  proof (cases t)
    case None
    with s show ?thesis by (simp add: leak_def)
  next
    case (Some p)
    obtain k i where p: "p = (k, i)" by (cases p)
    from assms(1) Some p have l: "live k i st" "unreleasable k i st" by (simp_all add: leak_def)
    from assms(3) Some p have "\<not> can_release k i ob" by simp
    with l(2) have "unreleasable k i (set_obj h ob st)"
      by (auto simp: unreleasable_def set_obj_def list_all_iff dest!: set_update_subset_insert [THEN subsetD])
    moreover from l(1) have "live k i (set_obj h ob st)" by (simp add: live_def set_obj_def)
    ultimately show ?thesis using s Some p by (simp add: leak_def)
  qed
qed

lemma leak_close_rr:
  assumes "leak t st" and "h < length (heap st)"
  shows "leak t (close_rr h st)"
proof (cases "hkey (heap st ! h) = Undefined")
  case True
  with assms show ?thesis by (simp add: close_rr_def)
next
  case False
  let ?ob = "heap st ! h"
  let ?st3 = "removeIndexesKey (hindexesKey ?ob) (hindex ?ob) (handles_delete (hkey ?ob) (send (CloseMsg (hkey ?ob)) st))"
  from leak_obj [OF assms] False have ne: "t \<noteq> Some (hindexesKey ?ob, hindex ?ob)" by simp
  from assms(1) have "leak t (handles_delete (hkey ?ob) (send (CloseMsg (hkey ?ob)) st))"
    by (simp add: leak_handles_delete)
  from leak_removeIndexesKey [OF ne this] have l3: "leak t ?st3" .
  have "leak t (set_obj h (?ob\<lparr>hkey := Undefined\<rparr>) ?st3)"
  proof (rule leak_set_obj [OF l3])
    show "h < length (heap ?st3)" using assms(2) by simp
    show "\<not> can_release k i (?ob\<lparr>hkey := Undefined\<rparr>)" if "t = Some (k, i)" for k i
      using ne that by (auto simp: can_release_def)
  qed
  with False show ?thesis by (simp add: close_rr_def Let_def)
qed

lemma leak_handle_close: "leak t st \<Longrightarrow> h < length (heap st) \<Longrightarrow> leak t (handle_close h c st)"
  by (simp add: handle_close_def leak_close_shared leak_close_rr split: hkind.splits)

lemma leak_checkWaitingCount: "leak t st \<Longrightarrow> leak t (snd (checkWaitingCount d st))"
  by (simp add: checkWaitingCount_def Let_def)

lemma leak_close_done: "leak t st \<Longrightarrow> leak t (snd (close_done h (d, st)))"
  by (simp add: close_done_def leak_checkWaitingCount)

lemma leak_close_one:
  assumes "leak t st" and "h < length (heap st)"
  shows "leak t (snd (snd (close_one env h (d, pend, st))))"
proof -
  have a: "leak t (handle_close h False (emit (OwnerClose h) st))"
    by (rule leak_handle_close) (use assms in simp_all)
  have b: "leak t (emit (OwnerClose h) st)" using assms by simp
  have c: "kind (heap st ! h) = Shared \<Longrightarrow> leak t (close_shared h True st)"
    by (rule leak_close_shared [OF assms])
  note e = leak_close_rr [OF assms]
  show ?thesis
    using a b c e
    by (auto simp: close_one_def Let_def split_beta leak_close_done split: hkind.splits)
qed

lemma leak_valid: "leak t st \<Longrightarrow> handles_get key st = Some h \<Longrightarrow> h < length (heap st)"
  by (auto simp: leak_def sane_def list_all_iff handles_get_def dest!: map_of_SomeD)

lemma leak_forEach: "leak t (snd (snd acc)) \<Longrightarrow> leak t (snd (snd (forEach_handles env es acc)))"
proof (induction es arbitrary: acc)
  case Nil
  then show ?case by simp
next
  case (Cons e es)
  obtain key h where e: "e = (key, h)" by (cases e)
  obtain d pend st where acc: "acc = (d, pend, st)" by (cases acc)
  show ?case
  proof (cases "handles_get key st = Some h")
    case True
    from Cons.prems acc have l: "leak t st" by simp
    from leak_close_one [OF l leak_valid [OF l True]]
    have "leak t (snd (snd (close_one env h acc)))" by (simp add: acc)
    from Cons.IH [OF this] True show ?thesis by (simp add: e acc)
  next
    case False
    with Cons.IH [OF Cons.prems] show ?thesis by (simp add: e acc)
  qed
qed

lemma leak_fields:
  "leak t st \<Longrightarrow> leak t (st\<lparr>handles := []\<rparr>)"
  "leak t (st\<lparr>exitedAfterDisconnect := b\<rparr>) = leak t st"
  "leak t (st\<lparr>wstate := w\<rparr>) = leak t st"
  "leak t (st\<lparr>chan_connected := b\<rparr>) = leak t st"
  "leak t (st\<lparr>exit_on_disconnect := b\<rparr>) = leak t st"
  by (auto simp: leak_def sane_def live_def unreleasable_def split: option.splits prod.splits)

lemma leak_internal_disconnect: "leak t st \<Longrightarrow> leak t (snd (snd (internal_disconnect env p st)))"
proof -
  assume l: "leak t st"
  let ?st0 = "st\<lparr>exitedAfterDisconnect := True\<rparr>"
  let ?acc = "(\<lparr>waitingCount = 1, primaryInitiated = p\<rparr>, [], ?st0)"
  from l have "leak t ?st0" by (simp add: leak_fields)
  then have "leak t (snd (snd (forEach_handles env (handles ?st0) ?acc)))"
    by (intro leak_forEach) simp
  then have "leak t (snd (checkWaitingCount d ((snd (snd (forEach_handles env (handles ?st0) ?acc)))\<lparr>handles := []\<rparr>)))" for d
    by (intro leak_checkWaitingCount leak_fields(1))
  then show ?thesis by (simp add: internal_disconnect_def Let_def split_beta)
qed

lemma leak_getServer:
  assumes "leak t st"
  shows "leak t (getServer pf obj opts st)"
proof -
  let ?k = "indexesKey_of pf opts"
  have s: "sane (getServer pf obj opts st)"
    using leak_sane [OF assms]
    by (auto simp: sane_def getServer_def allocIndex_def Let_def chan_defs less_Suc_eq split: option.splits)
  show ?thesis
  proof (cases t)
    case None
    with s show ?thesis by (simp add: leak_def)
  next
    case (Some p)
    obtain k i where p: "p = (k, i)" by (cases p)
    from assms Some p have l: "live k i st" "unreleasable k i st" "sane st" by (simp_all add: leak_def)
    from l(1,3) have below: "\<And>s. indexes st k = Some s \<Longrightarrow> i < nextIndex s"
      by (auto simp: live_def sane_def split: option.splits dest!: spec [of _ k])
    from l(1) have "live k i (getServer pf obj opts st)"
      by (auto simp: live_def getServer_def allocIndex_def Let_def chan_defs split: option.splits)
    moreover from l(1,2) below have "unreleasable k i (getServer pf obj opts st)"
      by (auto simp: live_def unreleasable_def getServer_def allocIndex_def Let_def chan_defs
          split: option.splits)
    ultimately show ?thesis using s Some p by (simp add: leak_def)
  qed
qed

lemma update_subset: "set (AList.update key v xs) \<subseteq> insert (key, v) (set xs)"
  by (induction xs) auto

lemma leak_new_obj:
  assumes "leak t st" and "t \<noteq> Some (hindexesKey ob, hindex ob)"
  shows "leak t (st\<lparr>heap := heap st @ [ob]\<rparr>)"
  using assms
  by (auto simp: leak_def sane_def live_def unreleasable_def list_all_iff can_release_def
      split: option.splits)

lemma leak_register:
  assumes "leak t st" and "t \<noteq> Some (hindexesKey ob, hindex ob)"
  shows "leak t (handles_set key (length (heap st)) (st\<lparr>heap := heap st @ [ob]\<rparr>))"
proof -
  let ?st1 = "st\<lparr>heap := heap st @ [ob]\<rparr>"
  from leak_new_obj [OF assms] have l: "leak t ?st1" .
  have "list_all (\<lambda>(key, h). h < length (heap ?st1)) (AList.update key (length (heap st)) (handles ?st1))"
    using leak_sane [OF l] update_subset [of key "length (heap st)" "handles ?st1"]
    by (fastforce simp: sane_def list_all_iff)
  with l show ?thesis
    by (auto simp: leak_def sane_def live_def unreleasable_def handles_set_def
        split: option.splits prod.splits)
qed

lemma leak_on_reply:
  assumes "leak t st" and "t \<noteq> Some (k', i')"
  shows "leak t (state_of (on_reply ssd k' i' msg wh st))"
proof -
  let ?st1 = "if ssd then emit (SetServerData (rdata msg)) st else st"
  let ?obS = "\<lparr>kind = Shared, hkey = rkey msg, hindexesKey = k', hindex = i', hsockname = None,
                owner = False, has_onconnection = False\<rparr>"
  let ?obF = "\<lparr>kind = Faux, hkey = rkey msg, hindexesKey = k', hindex = i', hsockname = sockname msg,
                owner = False, has_onconnection = False\<rparr>"
  from assms(1) have l1: "leak t ?st1" by simp
  from assms(2) have neS: "t \<noteq> Some (hindexesKey ?obS, hindex ?obS)"
    and neF: "t \<noteq> Some (hindexesKey ?obF, hindex ?obF)" by simp_all
  note newS = leak_new_obj [OF l1 neS, simplified]
  note newF = leak_new_obj [OF l1 neF, simplified]
  note regS = leak_register [OF l1 neS, where key = "rkey msg", simplified]
  note regF = leak_register [OF l1 neF, where key = "rkey msg", simplified]
  show ?thesis
    using newS newF regS regF l1
    by (auto simp: on_reply_def shared_def rr_def Let_def state_of_def new_hid_def)
qed

lemma leak_consume: "leak t st \<Longrightarrow> leak t (st\<lparr>callbacks := (callbacks st)[n := None]\<rparr>)"
  by (auto simp: leak_def sane_def live_def unreleasable_def list_all_iff split: option.splits
      dest!: set_update_subset_insert [THEN subsetD])

lemma leak_callback:
  "leak t st \<Longrightarrow> n < length (callbacks st) \<Longrightarrow> callbacks st ! n = Some (OnReply ssd k' i') \<Longrightarrow>
   t \<noteq> Some (k', i')"
proof
  assume n: "n < length (callbacks st)" and c: "callbacks st ! n = Some (OnReply ssd k' i')"
    and l: "leak t st" and t: "t = Some (k', i')"
  from l t have "list_all (\<lambda>c. \<not> waits_for k' i' c) (callbacks st)"
    by (simp add: leak_def unreleasable_def)
  with n have "\<not> waits_for k' i' (callbacks st ! n)" by (simp add: list_all_length)
  with c show False by simp
qed

lemma leak_acked: "leak t st \<Longrightarrow> leak t (state_of (acked n msg wh st))"
  using leak_on_reply [OF leak_consume [of t st n]] leak_callback [of t st n]
  by (auto simp: acked_def Let_def state_of_def [of "Inr _"] leak_consume split: option.splits callback.splits)

lemma leak_step: "leak t (mstate m) \<Longrightarrow> leak t (mstate (step pf a m))"
proof (cases "running m")
  case False
  then show "leak t (mstate m) \<Longrightarrow> ?thesis" by (simp add: step_idle)
next
  case True
  assume l: "leak t (mstate m)"
  let ?st = "mstate m"
  show ?thesis
  proof (cases a)
    case (GetServer obj opts)
    with True l show ?thesis by (simp add: step_def Let_def leak_getServer)
  next
    case (Acked n msg wh)
    with True l show ?thesis by (simp add: step_def Let_def leak_acked)
  next
    case (Close h c)
    with True l show ?thesis by (simp add: step_def Let_def leak_handle_close)
  next
    case (SetOwner h)
    have "leak t (set_obj h ((heap ?st ! h)\<lparr>owner := True\<rparr>) ?st)" if "h < length (heap ?st)"
    proof (rule leak_set_obj [OF l that])
      show "\<not> can_release k i ((heap ?st ! h)\<lparr>owner := True\<rparr>)" if "t = Some (k, i)" for k i
        using l that \<open>h < length (heap ?st)\<close>
        by (auto simp: leak_def unreleasable_def list_all_length can_release_def)
    qed
    with True l SetOwner show ?thesis by (simp add: step_def Let_def)
  next
    case (SetOnconnection h)
    have "leak t (set_obj h ((heap ?st ! h)\<lparr>has_onconnection := True\<rparr>) ?st)" if "h < length (heap ?st)"
    proof (rule leak_set_obj [OF l that])
      show "\<not> can_release k i ((heap ?st ! h)\<lparr>has_onconnection := True\<rparr>)" if "t = Some (k, i)" for k i
        using l that \<open>h < length (heap ?st)\<close>
        by (auto simp: leak_def unreleasable_def list_all_length can_release_def)
    qed
    with True l SetOnconnection show ?thesis by (simp add: step_def Let_def)
  next
    case (Received env msg)
    have "leak t (state_of (snd (onmessage env msg ?st)))"
      using leak_internal_disconnect [OF l, of env True] l
      by (auto simp: onmessage_def onconnection_def Let_def state_of_def split_beta
          split: inbound.splits option.splits)
    with True Received show ?thesis by (simp add: step_def split_beta Let_def)
  next
    case (Disconnect env)
    from l have "leak t (?st\<lparr>wstate := WDisconnecting\<rparr>)" by (simp add: leak_fields)
    from leak_internal_disconnect [OF this, of env False] l
    have "leak t (snd (Worker_disconnect env ?st))"
      by (auto simp: Worker_disconnect_def split_beta)
    with True Disconnect show ?thesis by (simp add: step_def split_beta Let_def)
  next
    case Destroy
    from l have "leak t (destroy ?st)"
      by (auto simp: destroy_def Let_def leak_fields)
    with True Destroy show ?thesis by (simp add: step_def Let_def)
  next
    case (Completed n h)
    with True l show ?thesis by (auto simp: step_def split_beta Let_def leak_close_done)
  next
    case (ListeningEv n aport)
    have "leak t (listening j d qo aport ?st)" for j d qo
      using l by (simp add: listening_def Let_def leak_fields)
    with True ListeningEv l show ?thesis
      by (auto simp: step_def Let_def split_beta split: option.splits)
  next
    case ChannelClosed
    from l have "leak t (?st\<lparr>chan_connected := False\<rparr>)" by (simp add: leak_fields)
    with True ChannelClosed show ?thesis by (simp add: step_def Let_def)
  next
    case DisconnectEvent
    from l have "leak t (on_disconnect (?st\<lparr>chan_connected := False\<rparr>))"
      by (auto simp: on_disconnect_def Let_def leak_fields)
    with True DisconnectEvent show ?thesis by (simp add: step_def Let_def)
  qed
qed

lemma leak_run: "leak t (mstate m) \<Longrightarrow> leak t (mstate (run pf ops m))"
  unfolding run_def by (induction ops arbitrary: m) (auto intro: leak_step)

lemma sane_reached: "sane (mstate (run pf pre boot))"
proof -
  have "leak None (mstate boot)" by (simp add: leak_def sane_def boot_def setupWorker_def)
  from leak_run [OF this] show ?thesis by (simp add: leak_def)
qed

subsection \<open>Disconnect drains the registry (C1)\<close>

text \<open>Claim C1 asks that a worker-initiated \<^verbatim>\<open>disconnect()\<close> closes every registered
  handle and sends \<^verbatim>\<open>exitedAfterDisconnect\<close> exactly once, after the last close
  completion. A worker listens, receives a round-robin handle, to which nothing attaches an
  owner, and calls \<^verbatim>\<open>disconnect()\<close>. Whatever the collaborators do,
  \<^verbatim>\<open>_disconnect\<close> calls the handle's own \<^verbatim>\<open>close\<close>, which drops the completion
  callback: the call returns with \<^verbatim>\<open>waitingCount\<close> at 1 and no completion callback
  outstanding, the close notification is the last message sent, and no callback waits for
  an acknowledgement. \<^verbatim>\<open>exitedAfterDisconnect\<close> is never sent.\<close>

theorem disconnect_stalls_on_unowned_faux:
  "drains (run posix [GetServer plain_server port80, Acked 0 rr_reply False, Disconnect env] boot) =
     [(\<lparr>waitingCount = 1, primaryInitiated = False\<rparr>, [])]
   \<and> trace (mstate (run posix [GetServer plain_server port80, Acked 0 rr_reply False, Disconnect env] boot)) =
       [Send Online, Send (QueryServer 0 Null port80), Callback (JNum 0) (Some 0),
        Send (CloseMsg (JStr ''a:80:4::0''))]
   \<and> callbacks (mstate (run posix [GetServer plain_server port80, Acked 0 rr_reply False, Disconnect env] boot)) =
       [None]
   \<and> handles (mstate (run posix [GetServer plain_server port80, Acked 0 rr_reply False, Disconnect env] boot)) = []
   \<and> wstate (mstate (run posix [GetServer plain_server port80, Acked 0 rr_reply False, Disconnect env] boot)) =
       WDisconnecting"
  by (simp add: run_def run_defs add_drain_def)

text \<open>Where every registered handle has an owner or is a shared handle (so that the close
  invoked on it keeps the completion callback), the drain does what the claim says: for every
  behaviour of the collaborators and every order in which the outstanding completion
  callbacks are run, all handles are closed, every completion has run, and
  \<^verbatim>\<open>exitedAfterDisconnect\<close> is the last event, sent once, before any
  \<^verbatim>\<open>process.disconnect()\<close>.\<close>

theorem worker_disconnect_drains:
  assumes "Worker_disconnect env st = (Some (d, pend), st1)"
    and "wf_registry st"
    and "list_all (\<lambda>(k, h). takes_callback (heap st ! h)) (handles st)"
    and "mset order = mset pend"
    and "complete_all order (d, st1) = (d', st')"
  shows "\<exists>evs. trace st' = trace st @ evs @ [Send ExitedAfterDisconnect]
           \<and> Send ExitedAfterDisconnect \<notin> set evs \<and> ProcessDisconnect \<notin> set evs
           \<and> list_all (\<lambda>(k, h). close_call (heap st ! h) h \<in> set evs \<and> CloseDone h \<in> set evs) (handles st)"
proof -
  let ?st = "st\<lparr>wstate := WDisconnecting\<rparr>"
  from assms(1) have run: "internal_disconnect env False ?st = (d, pend, st1)"
    by (simp add: Worker_disconnect_run)
  from assms(2) have wf: "wf_registry ?st" by (simp add: wf_registry_def)
  from assms(3) have tc: "list_all (\<lambda>(k, h). takes_callback (heap ?st ! h)) (handles ?st)" by simp
  from drain_completes [OF run wf tc assms(4,5)] show ?thesis
    by (simp add: final_event_def quiet_def)
qed

text \<open>The drain at a registry with a shared handle whose close completes at once and an
  owned round-robin handle whose close completes later.\<close>

theorem worker_disconnect_drains_witness:
  "(let r = internal_disconnect server_closers False (two_handles\<lparr>wstate := WDisconnecting\<rparr>);
        r' = complete_all [1] (fst r, snd (snd r))
    in Worker_disconnect server_closers two_handles = (Some (fst r, fst (snd r)), snd (snd r))
       \<and> wf_registry two_handles
       \<and> list_all (\<lambda>(k, h). takes_callback (heap two_handles ! h)) (handles two_handles)
       \<and> mset [1] = mset (fst (snd r))
       \<and> trace (snd r') = [Send Online, Send (CloseMsg (JStr ''k0'')), NativeClose 0 True, CloseDone 0,
            OwnerClose 1, Send (CloseMsg (JStr ''k1'')), CloseDone 1, Send ExitedAfterDisconnect])"
proof -
  define r where "r = internal_disconnect server_closers False (two_handles\<lparr>wstate := WDisconnecting\<rparr>)"
  define r' where "r' = complete_all [1] (fst r, snd (snd r))"
  have r: "r = (\<lparr>waitingCount = 1, primaryInitiated = False\<rparr>, [1], snd (snd r))"
    unfolding r_def by (simp add: ex_defs close_defs chan_defs reg_defs Let_def)
  have tr: "trace (snd (snd r)) = [Send Online, Send (CloseMsg (JStr ''k0'')), NativeClose 0 True, CloseDone 0,
            OwnerClose 1, Send (CloseMsg (JStr ''k1''))]"
    unfolding r_def by (simp add: ex_defs close_defs chan_defs reg_defs Let_def)
  have wd: "Worker_disconnect server_closers two_handles = (Some (fst r, fst (snd r)), snd (snd r))"
    unfolding r_def by (simp add: Worker_disconnect_def two_handles_def setupWorker_def split: prod.splits)
  have ca: "complete_all [1] (fst r, snd (snd r)) = (fst r', snd r')" by (simp add: r'_def)
  have wf: "wf_registry two_handles" by (simp add: wf_registry_def ex_defs)
  have tc: "list_all (\<lambda>(k, h). takes_callback (heap two_handles ! h)) (handles two_handles)"
    by (simp add: takes_callback_def ex_defs)
  have pm: "mset [1] = mset (fst (snd r))" by (subst r) simp
  note main = worker_disconnect_drains [OF wd wf tc pm ca]
  have tr': "trace (snd r') = [Send Online, Send (CloseMsg (JStr ''k0'')), NativeClose 0 True, CloseDone 0,
            OwnerClose 1, Send (CloseMsg (JStr ''k1'')), CloseDone 1, Send ExitedAfterDisconnect]"
    unfolding r'_def using tr
    by (subst r) (simp add: complete_all_def close_done_def checkWaitingCount_def Let_def chan_defs)
  from main wd wf tc pm tr' show ?thesis
    unfolding Let_def r_def [symmetric] r'_def [symmetric] by blast
qed

subsection \<open>The state guard of disconnect (C2)\<close>

text \<open>Claim C2, amended: \<^verbatim>\<open>Worker.prototype.disconnect\<close> is a no-op when the state is
  already \<^verbatim>\<open>'disconnecting'\<close> or \<^verbatim>\<open>'destroying'\<close>. The
  \<^verbatim>\<open>{act: 'disconnect'}\<close> message is not guarded by the state: in every state
  \<^verbatim>\<open>onmessage\<close> runs \<^verbatim>\<open>_disconnect(true)\<close>, which empties the registry and, when
  the registry was already empty, requests the transport disconnect at once.\<close>

theorem disconnect_guard:
  "(wstate st = WDisconnecting \<or> wstate st = WDestroying \<longrightarrow> Worker_disconnect env st = (None, st))
   \<and> (\<exists>d pend st'. onmessage env DisconnectMsg st = (Some (d, pend), Inr st')
         \<and> internal_disconnect env True st = (d, pend, st')
         \<and> handles st' = []
         \<and> (handles st = [] \<longrightarrow>
              st' = st\<lparr>exitedAfterDisconnect := True, trace := trace st @ [ProcessDisconnect]\<rparr>))"
proof -
  obtain d pend st' where r: "internal_disconnect env True st = (d, pend, st')"
    by (cases "internal_disconnect env True st")
  have "handles st = [] \<longrightarrow> st' = st\<lparr>exitedAfterDisconnect := True, trace := trace st @ [ProcessDisconnect]\<rparr>"
    using r by (auto simp: internal_disconnect_def checkWaitingCount_def Let_def emit_def)
  with r internal_disconnect_quiet(5) [OF r] show ?thesis
    by (simp add: Worker_disconnect_def onmessage_def)
qed

text \<open>The amended claim at a worker that is already disconnecting.\<close>

theorem disconnect_guard_witness:
  "wstate (setupWorker\<lparr>wstate := WDisconnecting\<rparr>) = WDisconnecting
   \<and> Worker_disconnect no_closers (setupWorker\<lparr>wstate := WDisconnecting\<rparr>) =
       (None, setupWorker\<lparr>wstate := WDisconnecting\<rparr>)
   \<and> handles (setupWorker\<lparr>wstate := WDisconnecting\<rparr>) = []"
  using disconnect_guard [of "setupWorker\<lparr>wstate := WDisconnecting\<rparr>" no_closers]
  by (simp add: setupWorker_def)

text \<open>Claim C2 as stated fails on the message path: a worker has called
  \<^verbatim>\<open>disconnect()\<close>, is in state \<^verbatim>\<open>'disconnecting'\<close> and waits for the close of its
  server; when \<^verbatim>\<open>{act: 'disconnect'}\<close> arrives, \<^verbatim>\<open>_disconnect(true)\<close> runs on the
  emptied registry and requests the transport disconnect.\<close>

theorem primary_disconnect_unguarded:
  "wstate (mstate (run posix listen_disconnect boot)) = WDisconnecting
   \<and> drains (run posix listen_disconnect boot) = [(\<lparr>waitingCount = 1, primaryInitiated = False\<rparr>, [0])]
   \<and> trace (mstate (run posix listen_disconnect boot)) =
        [Send Online, Send (QueryServer 0 Null port80), Callback (JNum 0) (Some 0), OwnerClose 0]
   \<and> trace (mstate (run posix (listen_disconnect @ [Received no_closers DisconnectMsg]) boot)) =
        [Send Online, Send (QueryServer 0 Null port80), Callback (JNum 0) (Some 0), OwnerClose 0,
         ProcessDisconnect]"
  by (simp add: listen_disconnect_def run_def run_defs add_drain_def)

subsection \<open>Connections for unknown keys (C3)\<close>

text \<open>Claim C3: a \<^verbatim>\<open>newconn\<close> message whose key is not in the registry is answered
  with \<^verbatim>\<open>{ack: seq, accepted: false}\<close> and nothing else happens, without a throw; and
  for every \<^verbatim>\<open>newconn\<close> message the acknowledgement is the first new event, any
  delivery to the handle's \<^verbatim>\<open>onconnection\<close> comes after it, and nothing but the trace
  changes.\<close>

theorem newconn_ack_then_delivery:
  "(handles_get key st = None \<longrightarrow>
      onmessage env (NewConn key seq conn) st = (None, Inr (send (AckMsg seq False) st)))
   \<and> (\<exists>st'. snd (onmessage env (NewConn key seq conn) st) \<in> {Inr st', Inl (TypeError, st')}
        \<and> trace st' = trace st @ Send (AckMsg seq (handles_has key st)) #
             (case handles_get key st of
                None \<Rightarrow> []
              | Some h \<Rightarrow> if has_onconnection (heap st ! h) then [OnConnection h conn] else [])
        \<and> st'\<lparr>trace := trace st\<rparr> = st)"
  by (auto simp: onmessage_def onconnection_def chan_defs handles_has_def Let_def split: option.splits)

text \<open>Claim C3 at a key that is not registered.\<close>

theorem newconn_ack_then_delivery_witness:
  "handles_get (JStr ''gone'') one_faux = None \<and>
   onmessage no_closers (NewConn (JStr ''gone'') (JNum 7) 3) one_faux =
     (None, Inr (one_faux\<lparr>trace := [Send Online, Send (AckMsg (JNum 7) False)]\<rparr>))"
  using newconn_ack_then_delivery [of "JStr ''gone''" one_faux no_closers "JNum 7" 3]
  by (simp add: ex_defs handles_get_def chan_defs)

subsection \<open>Closing a round-robin handle twice (C4)\<close>

text \<open>Claim C4: closing an open round-robin handle twice leaves the state of the first
  close: one close notification with the handle's key, the registry entry removed, the index
  released once, and the closure's \<^verbatim>\<open>key\<close> undefined after the first close, which is
  what makes the second return at once. Released means: the handle's index is no longer live,
  every other index of the endpoint is live exactly when it was, the index sets of other
  endpoints are as before, and the endpoint's index set keeps its counter when another index
  is live and is deleted otherwise.\<close>

theorem faux_close_twice:
  assumes "h < length (heap st)" and "kind (heap st ! h) = Faux" and "hkey (heap st ! h) \<noteq> Undefined"
  shows "handle_close h c (handle_close h c st) = handle_close h c st
     \<and> trace (handle_close h c (handle_close h c st)) = trace st @ [Send (CloseMsg (hkey (heap st ! h)))]
     \<and> handles (handle_close h c (handle_close h c st)) = AList.delete (hkey (heap st ! h)) (handles st)
     \<and> indexes (handle_close h c (handle_close h c st)) =
         indexes (removeIndexesKey (hindexesKey (heap st ! h)) (hindex (heap st ! h)) st)
     \<and> hkey (heap (handle_close h c st) ! h) = Undefined
     \<and> \<not> live (hindexesKey (heap st ! h)) (hindex (heap st ! h)) (handle_close h c (handle_close h c st))
     \<and> (\<forall>j. j \<noteq> hindex (heap st ! h) \<longrightarrow>
           live (hindexesKey (heap st ! h)) j (handle_close h c (handle_close h c st)) =
           live (hindexesKey (heap st ! h)) j st)
     \<and> (\<forall>k. k \<noteq> hindexesKey (heap st ! h) \<longrightarrow>
           indexes (handle_close h c (handle_close h c st)) k = indexes st k)
     \<and> next_of (hindexesKey (heap st ! h)) (handle_close h c (handle_close h c st)) =
         (if \<exists>j. j \<noteq> hindex (heap st ! h) \<and> live (hindexesKey (heap st ! h)) j st
          then next_of (hindexesKey (heap st ! h)) st else 0)"
proof -
  let ?ob = "heap st ! h"
  let ?st1 = "handle_close h c st"
  have twice: "handle_close h c ?st1 = ?st1"
    and tr: "trace ?st1 = trace st @ [Send (CloseMsg (hkey ?ob))]"
    and hs: "handles ?st1 = AList.delete (hkey ?ob) (handles st)"
    and ix: "indexes ?st1 = indexes (removeIndexesKey (hindexesKey ?ob) (hindex ?ob) st)"
    and ky: "hkey (heap ?st1 ! h) = Undefined"
    using assms
    by (simp_all add: handle_close_def close_rr_def Let_def chan_defs reg_defs set_obj_def
        removeIndexesKey_def split: option.splits)
  have gone: "\<not> live (hindexesKey ?ob) (hindex ?ob) ?st1"
    by (auto simp: live_def ix removeIndexesKey_def split: option.splits)
  have others: "live (hindexesKey ?ob) j ?st1 = live (hindexesKey ?ob) j st" if "j \<noteq> hindex ?ob" for j
    using that by (auto simp: live_def ix removeIndexesKey_def split: option.splits)
  have keys: "indexes ?st1 k = indexes st k" if "k \<noteq> hindexesKey ?ob" for k
    using that by (auto simp: ix removeIndexesKey_def split: option.splits)
  have cnt: "next_of (hindexesKey ?ob) ?st1 =
      (if \<exists>j. j \<noteq> hindex ?ob \<and> live (hindexesKey ?ob) j st then next_of (hindexesKey ?ob) st else 0)"
    by (auto simp: next_of_def live_def ix removeIndexesKey_def split: option.splits)
  from twice tr hs ix ky gone others keys cnt show ?thesis by simp
qed

text \<open>The state after listening twice on one endpoint and receiving a round-robin handle for
  the first query.\<close>

lemma listen_twice_state:
  "handles (mstate (run posix listen_twice boot)) = [(JStr ''a:80:4::0'', 0)]"
  "heap (mstate (run posix listen_twice boot)) =
     [\<lparr>kind = Faux, hkey = JStr ''a:80:4::0'', hindexesKey = ''a:80:4:'', hindex = 0,
        hsockname = Some [''port'' \<mapsto> JNum 80], owner = False, has_onconnection = False\<rparr>]"
  "trace (mstate (run posix listen_twice boot)) =
     [Send Online, Send (QueryServer 0 Null port80), Send (QueryServer 1 Null port80),
      Callback (JNum 0) (Some 0)]"
  "indexes (mstate (run posix listen_twice boot)) ''a:80:4:'' = Some \<lparr>nextIndex = 2, iset = {0, 1}\<rparr>"
  by (auto simp: listen_twice_def run_def run_defs numeral_2_eq_2)

text \<open>Claim C4 at that handle: indices 0 and 1 are live, the handle holds index 0; after the
  two closes one notification was sent, the registry is empty, index 0 is released and index
  1 is still live under the same counter.\<close>

theorem faux_close_twice_witness:
  "0 < length (heap (mstate (run posix listen_twice boot)))
   \<and> kind (heap (mstate (run posix listen_twice boot)) ! 0) = Faux
   \<and> hkey (heap (mstate (run posix listen_twice boot)) ! 0) \<noteq> Undefined
   \<and> live ''a:80:4:'' 0 (mstate (run posix listen_twice boot))
   \<and> trace (handle_close 0 False (handle_close 0 False (mstate (run posix listen_twice boot)))) =
        [Send Online, Send (QueryServer 0 Null port80), Send (QueryServer 1 Null port80),
         Callback (JNum 0) (Some 0), Send (CloseMsg (JStr ''a:80:4::0''))]
   \<and> handles (handle_close 0 False (handle_close 0 False (mstate (run posix listen_twice boot)))) = []
   \<and> indexes (handle_close 0 False (handle_close 0 False (mstate (run posix listen_twice boot)))) ''a:80:4:''
        = Some \<lparr>nextIndex = 2, iset = {1}\<rparr>
   \<and> \<not> live ''a:80:4:'' 0 (handle_close 0 False (handle_close 0 False (mstate (run posix listen_twice boot))))
   \<and> live ''a:80:4:'' 1 (handle_close 0 False (handle_close 0 False (mstate (run posix listen_twice boot))))"
proof -
  let ?st = "mstate (run posix listen_twice boot)"
  let ?st2 = "handle_close 0 False (handle_close 0 False ?st)"
  have a: "0 < length (heap ?st)" "kind (heap ?st ! 0) = Faux" "hkey (heap ?st ! 0) \<noteq> Undefined"
    by (simp_all add: listen_twice_state)
  note main = faux_close_twice [OF a, of False]
  have l0: "live ''a:80:4:'' 0 ?st" by (simp add: listen_twice_state live_def)
  have tr: "trace ?st2 = [Send Online, Send (QueryServer 0 Null port80), Send (QueryServer 1 Null port80),
         Callback (JNum 0) (Some 0), Send (CloseMsg (JStr ''a:80:4::0''))]"
    by (simp add: listen_twice_state close_defs chan_defs reg_defs Let_def)
  have hs: "handles ?st2 = []"
    by (simp add: listen_twice_state close_defs chan_defs reg_defs Let_def)
  have "{0, Suc 0} - {0::nat} = {Suc 0}" by auto
  then have ix: "indexes ?st2 ''a:80:4:'' = Some \<lparr>nextIndex = 2, iset = {1}\<rparr>"
    by (simp add: listen_twice_state close_defs chan_defs reg_defs Let_def)
  have g: "\<not> live ''a:80:4:'' 0 ?st2" "live ''a:80:4:'' 1 ?st2"
    by (simp_all add: live_def ix)
  show ?thesis
    using main
    apply (intro conjI)
    apply (rule a l0 tr hs ix g)+
    done
qed

subsection \<open>No double registration (C5)\<close>

text \<open>Claim C5: when the reply's key is already registered, \<^verbatim>\<open>shared\<close> fails its
  assertion, and so does \<^verbatim>\<open>rr\<close> for a reply without error; the registry, the index
  sets and the trace are as before.\<close>

theorem duplicate_key_asserts:
  assumes "handles_has (rkey msg) st"
  shows "(\<exists>st'. shared msg k i st = Inl (AssertionError, st') \<and> handles st' = handles st
            \<and> indexes st' = indexes st \<and> trace st' = trace st)
       \<and> (\<not> truthy (errno msg) \<longrightarrow>
            (\<exists>st'. rr msg k i st = Inl (AssertionError, st') \<and> handles st' = handles st
               \<and> indexes st' = indexes st \<and> trace st' = trace st))"
  using assms by (simp add: shared_def rr_def Let_def reg_defs)

text \<open>Claim C5 at a reply that repeats the key of the registered handle.\<close>

theorem duplicate_key_asserts_witness:
  "handles_has (rkey dup_reply) one_faux \<and> \<not> truthy (errno dup_reply)
   \<and> shared dup_reply ''a:80:4:'' 1 one_faux =
       Inl (AssertionError, one_faux\<lparr>heap := [faux_ob, faux_ob\<lparr>kind := Shared, hindex := 1, hsockname := None\<rparr>]\<rparr>)
   \<and> handles_get (JStr ''k1'') (state_of (rr dup_reply ''a:80:4:'' 1 one_faux)) = Some 0"
  using duplicate_key_asserts [of dup_reply one_faux "''a:80:4:''" 1]
  by (simp add: ex_defs shared_def rr_def reg_defs state_of_def new_hid_def Let_def)

subsection \<open>Primary-initiated disconnect (C6)\<close>

text \<open>Claim C6: after \<^verbatim>\<open>{act: 'disconnect'}\<close>, whatever completion callbacks are run
  and in whatever order, no \<^verbatim>\<open>exitedAfterDisconnect\<close> is sent and no callback is left
  with the channel; \<^verbatim>\<open>process.disconnect()\<close> has been requested exactly when
  \<^verbatim>\<open>waitingCount\<close> has reached zero, and then once. Where every registered handle
  keeps its completion callback and the outstanding callbacks have all run, the request is
  the last event, after every close and every completion.\<close>

theorem primary_initiated_drain:
  assumes "onmessage env DisconnectMsg st = (Some (d, pend), Inr st1)"
    and "complete_all order (d, st1) = (d', st')"
  shows "(\<exists>evs. trace st' = trace st @ evs \<and> Send ExitedAfterDisconnect \<notin> set evs
            \<and> count_list evs ProcessDisconnect = (if waitingCount d' \<le> 0 then 1 else 0))
       \<and> callbacks st' = callbacks st
       \<and> (wf_registry st \<and> list_all (\<lambda>(k, h). takes_callback (heap st ! h)) (handles st)
            \<and> mset order = mset pend \<longrightarrow>
          (\<exists>evs. trace st' = trace st @ evs @ [ProcessDisconnect] \<and> quiet evs \<and>
             list_all (\<lambda>(k, h). close_call (heap st ! h) h \<in> set evs \<and> CloseDone h \<in> set evs) (handles st)))"
proof -
  from assms(1) have run: "internal_disconnect env True st = (d, pend, st1)"
    by (simp add: onmessage_disconnect)
  note q = internal_disconnect_quiet [OF run]
  note ce = complete_all_effect [OF assms(2)]
  from q(1) obtain evs where E: "trace st1 = trace st @ evs @ (if waitingCount d = 0 then [final_event True] else [])"
    "quiet evs" by blast
  let ?all = "evs @ (if waitingCount d = 0 then [ProcessDisconnect] else []) @
      completion_events True (waitingCount d) order"
  have t: "trace st' = trace st @ ?all" using ce E(1) q(3) by (simp add: final_event_def)
  have n0: "count_list evs ProcessDisconnect = 0" using E(2) by (simp add: quiet_def)
  have "Send ExitedAfterDisconnect \<notin> set ?all"
    using E(2) completion_events_no_ead by (auto simp: quiet_def)
  moreover have "count_list ?all ProcessDisconnect = (if waitingCount d' \<le> 0 then 1 else 0)"
    using n0 q(2) ce by (auto simp: completion_events_count)
  ultimately have A: "\<exists>evs. trace st' = trace st @ evs \<and> Send ExitedAfterDisconnect \<notin> set evs
            \<and> count_list evs ProcessDisconnect = (if waitingCount d' \<le> 0 then 1 else 0)"
    using t by blast
  have B: "callbacks st' = callbacks st" using ce q(3,4) by simp
  have C: "\<exists>evs. trace st' = trace st @ evs @ [ProcessDisconnect] \<and> quiet evs \<and>
             list_all (\<lambda>(k, h). close_call (heap st ! h) h \<in> set evs \<and> CloseDone h \<in> set evs) (handles st)"
    if "wf_registry st" "list_all (\<lambda>(k, h). takes_callback (heap st ! h)) (handles st)" "mset order = mset pend"
    using drain_completes [OF run that assms(2)] by (simp add: final_event_def)
  from A B C show ?thesis by blast
qed

text \<open>Claim C6 at a registry with a shared handle whose close completes at once and an
  owned round-robin handle whose close completes later.\<close>

theorem primary_initiated_drain_witness:
  "(let r = internal_disconnect server_closers True two_handles;
        r' = complete_all [1] (fst r, snd (snd r))
    in onmessage server_closers DisconnectMsg two_handles = (Some (fst r, fst (snd r)), Inr (snd (snd r)))
       \<and> wf_registry two_handles
       \<and> list_all (\<lambda>(k, h). takes_callback (heap two_handles ! h)) (handles two_handles)
       \<and> mset [1] = mset (fst (snd r))
       \<and> waitingCount (fst r') = 0
       \<and> trace (snd r') = [Send Online, Send (CloseMsg (JStr ''k0'')), NativeClose 0 True, CloseDone 0,
            OwnerClose 1, Send (CloseMsg (JStr ''k1'')), CloseDone 1, ProcessDisconnect])"
proof -
  define r where "r = internal_disconnect server_closers True two_handles"
  define r' where "r' = complete_all [1] (fst r, snd (snd r))"
  have r: "r = (\<lparr>waitingCount = 1, primaryInitiated = True\<rparr>, [1], snd (snd r))"
    unfolding r_def by (simp add: ex_defs close_defs chan_defs reg_defs Let_def)
  have tr: "trace (snd (snd r)) = [Send Online, Send (CloseMsg (JStr ''k0'')), NativeClose 0 True, CloseDone 0,
            OwnerClose 1, Send (CloseMsg (JStr ''k1''))]"
    unfolding r_def by (simp add: ex_defs close_defs chan_defs reg_defs Let_def)
  have om: "onmessage server_closers DisconnectMsg two_handles = (Some (fst r, fst (snd r)), Inr (snd (snd r)))"
    unfolding r_def by (simp add: onmessage_def split: prod.splits)
  have ca: "complete_all [1] (fst r, snd (snd r)) = (fst r', snd r')" by (simp add: r'_def)
  have wf: "wf_registry two_handles" by (simp add: wf_registry_def ex_defs)
  have tc: "list_all (\<lambda>(k, h). takes_callback (heap two_handles ! h)) (handles two_handles)"
    by (simp add: takes_callback_def ex_defs)
  have pm: "mset [1] = mset (fst (snd r))" by (subst r) simp
  note main = primary_initiated_drain [OF om ca]
  have w0: "waitingCount (fst r') = 0"
    unfolding r'_def by (subst r) (simp add: complete_all_def close_done_def checkWaitingCount_def Let_def)
  have tr': "trace (snd r') = [Send Online, Send (CloseMsg (JStr ''k0'')), NativeClose 0 True, CloseDone 0,
            OwnerClose 1, Send (CloseMsg (JStr ''k1'')), CloseDone 1, ProcessDisconnect]"
    unfolding r'_def using tr
    by (subst r) (simp add: complete_all_def close_done_def checkWaitingCount_def Let_def emit_def)
  from main om wf tc pm w0 tr' show ?thesis
    unfolding Let_def r_def [symmetric] r'_def [symmetric] by blast
qed

subsection \<open>Destroy on a closed channel (C8)\<close>

text \<open>Claim C8, amended: \<^verbatim>\<open>destroy()\<close> on a worker whose state is not
  \<^verbatim>\<open>'destroying'\<close> and whose channel is not connected marks
  \<^verbatim>\<open>exitedAfterDisconnect\<close> and calls \<^verbatim>\<open>process.exit(0)\<close>; it closes no handle and
  sends nothing.\<close>

theorem destroy_not_connected:
  assumes "wstate st \<noteq> WDestroying" and "\<not> chan_connected st"
  shows "destroy st = st\<lparr>exitedAfterDisconnect := True, trace := trace st @ [ProcessExit 0]\<rparr>"
  using assms by (simp add: destroy_def Let_def emit_def)

text \<open>The amended claim at a listening worker whose channel is down.\<close>

theorem destroy_not_connected_witness:
  "wstate (two_handles\<lparr>chan_connected := False\<rparr>) \<noteq> WDestroying
   \<and> \<not> chan_connected (two_handles\<lparr>chan_connected := False\<rparr>)
   \<and> trace (destroy (two_handles\<lparr>chan_connected := False\<rparr>)) = [Send Online, ProcessExit 0]
   \<and> handles (destroy (two_handles\<lparr>chan_connected := False\<rparr>)) = handles two_handles"
  using destroy_not_connected [of "two_handles\<lparr>chan_connected := False\<rparr>"]
  by (simp add: ex_defs)

text \<open>Claim C8 as stated fails when the state is already \<^verbatim>\<open>'destroying'\<close>: the guard
  on the first line of \<^verbatim>\<open>destroy\<close> returns before the channel is looked at, and the
  process does not exit.\<close>

theorem destroy_while_destroying:
  "\<not> chan_connected destroying_closed \<and> destroy destroying_closed = destroying_closed
   \<and> trace (destroy destroying_closed) = [Send Online, Send ExitedAfterDisconnect]"
  by (simp add: ex_defs destroy_def Let_def chan_defs)

subsection \<open>getsockname of a round-robin handle (C9)\<close>

text \<open>Claim C9, amended: for a round-robin handle created from a reply with a socket name,
  \<^verbatim>\<open>getsockname(out)\<close> returns 0 in every case; it copies the cached socket name into
  \<^verbatim>\<open>out\<close> when the key is truthy, and after \<^verbatim>\<open>close()\<close> it leaves \<^verbatim>\<open>out\<close> as
  it was.\<close>

theorem faux_getsockname:
  assumes "rr msg k i st = Inr st'" and "\<not> truthy (errno msg)" and "sockname msg = Some sn"
  shows "getsockname (heap st' ! new_hid st) out = Some (0, if truthy (rkey msg) then out ++ sn else out)
     \<and> getsockname (heap (handle_close (new_hid st) c st') ! new_hid st) out = Some (0, out)"
  using assms
  by (auto simp: rr_def Let_def reg_defs getsockname_def new_hid_def emit_def handle_close_def
      close_rr_def set_obj_def send_def nth_append split: if_splits)

text \<open>The amended claim at a reply with key \<^verbatim>\<open>'k2'\<close> and a socket name.\<close>

theorem faux_getsockname_witness:
  "rr tcp_reply ''a:80:4:'' 1 one_faux = Inr (state_of (rr tcp_reply ''a:80:4:'' 1 one_faux))
   \<and> \<not> truthy (errno tcp_reply) \<and> sockname tcp_reply = Some [''port'' \<mapsto> JNum 8080]
   \<and> getsockname (heap (state_of (rr tcp_reply ''a:80:4:'' 1 one_faux)) ! 1) Map.empty
       = Some (0, [''port'' \<mapsto> JNum 8080])"
  using faux_getsockname [of tcp_reply "''a:80:4:''" 1 one_faux
      "state_of (rr tcp_reply ''a:80:4:'' 1 one_faux)" "[''port'' \<mapsto> JNum 8080]" Map.empty False]
  by (simp add: ex_defs rr_def reg_defs state_of_def new_hid_def emit_def getsockname_def Let_def)

text \<open>Claim C9 as stated fails on a closed handle: the status is 0, the status of success,
  and \<^verbatim>\<open>out\<close> is not populated.\<close>

theorem getsockname_closed_succeeds:
  "hkey (heap (handle_close 0 False one_faux) ! 0) = Undefined
   \<and> getsockname (heap (handle_close 0 False one_faux) ! 0) Map.empty = Some (0, Map.empty)"
  by (simp add: ex_defs handle_close_def close_rr_def Let_def chan_defs reg_defs set_obj_def
      removeIndexesKey_def getsockname_def)

subsection \<open>Indices of one endpoint (C7)\<close>

text \<open>Claim C7, amended: along any run of the module, the calls of \<^verbatim>\<open>_getServer\<close> for
  one endpoint key obtain pairwise distinct, increasing indices, whatever was released in
  between, as long as the index set of that key is never deleted from \<^verbatim>\<open>indexes\<close>
  during the run (its live set never becomes empty).\<close>

theorem indices_distinct_while_kept:
  assumes "never_collected pf k ops m"
  shows "distinct (allocations pf k ops m) \<and> sorted_wrt (<) (allocations pf k ops m)"
  using allocations_bound [OF assms] strict_sorted_iff by blast

text \<open>The amended claim on a run that listens twice, closes the first handle and listens
  again: the indices are 0, 1 and 2.\<close>

theorem indices_distinct_while_kept_witness:
  "never_collected posix (indexesKey_of posix port80) listen_twice_close_listen boot
   \<and> allocations posix (indexesKey_of posix port80) listen_twice_close_listen boot = [0, 1, 2]"
  using indices_distinct_while_kept [of posix "indexesKey_of posix port80" listen_twice_close_listen boot]
  by (simp add: listen_twice_close_listen_def run_defs)

text \<open>Claim C7 as stated fails once the index set has been deleted: after the only live
  index is released, \<^verbatim>\<open>_getServer\<close> creates a new index set whose counter starts at 0
  again, and the second call obtains index 0 like the first.\<close>

theorem index_reused_after_collection:
  "allocations posix (indexesKey_of posix port80) listen_close_listen boot = [0, 0]
   \<and> \<not> never_collected posix (indexesKey_of posix port80) listen_close_listen boot"
  by (simp add: listen_close_listen_def run_defs)

subsection \<open>A failed round-robin query (C10)\<close>

text \<open>Claim C10, amended: when the reply to a query carries a truthy \<^verbatim>\<open>errno\<close> and no
  handle, the callback is called with \<^verbatim>\<open>(errno, null)\<close>, no handle object is created,
  and the registry and the index sets are unchanged: the reply handler releases nothing, and
  the index of the query is live afterwards exactly when it was before. When, in a state the
  module has reached, that index is live as the reply arrives and no shared handle, no open
  round-robin handle and no other outstanding query carries the same endpoint key and index,
  the index stays live through every later run of the module.\<close>

theorem failed_query_keeps_index:
  assumes "running m"
    and "n < length (callbacks (mstate m))"
    and "callbacks (mstate m) ! n = Some (OnReply ssd k i)"
    and "truthy (errno msg)"
  shows "trace (mstate (step pf (Acked n msg False) m)) =
           trace (mstate m) @ (if ssd then [SetServerData (rdata msg)] else []) @ [Callback (errno msg) None]
       \<and> heap (mstate (step pf (Acked n msg False) m)) = heap (mstate m)
       \<and> handles (mstate (step pf (Acked n msg False) m)) = handles (mstate m)
       \<and> indexes (mstate (step pf (Acked n msg False) m)) = indexes (mstate m)
       \<and> live k i (mstate (step pf (Acked n msg False) m)) = live k i (mstate m)
       \<and> (m = run pf pre boot \<and> live k i (mstate m)
            \<and> unreleasable k i ((mstate m)\<lparr>callbacks := (callbacks (mstate m))[n := None]\<rparr>)
          \<longrightarrow> (\<forall>ops. live k i (mstate (run pf ops (step pf (Acked n msg False) m)))))"
proof -
  let ?st = "mstate m"
  let ?m' = "step pf (Acked n msg False) m"
  let ?st1 = "?st\<lparr>callbacks := (callbacks ?st)[n := None]\<rparr>"
  have st': "mstate ?m' = emit (Callback (errno msg) None) (if ssd then emit (SetServerData (rdata msg)) ?st1 else ?st1)"
    using assms
    by (simp add: step_def Let_def acked_def on_reply_def rr_def state_of_def)
  have frame: "trace (mstate ?m') =
           trace ?st @ (if ssd then [SetServerData (rdata msg)] else []) @ [Callback (errno msg) None]"
    "heap (mstate ?m') = heap ?st" "handles (mstate ?m') = handles ?st" "indexes (mstate ?m') = indexes ?st"
    unfolding st' by (simp_all add: emit_def)
  from frame(4) have same: "live k i (mstate ?m') = live k i ?st" by (simp add: live_def)
  have later: "\<forall>ops. live k i (mstate (run pf ops ?m'))"
    if reached: "m = run pf pre boot" and l: "live k i ?st" and u: "unreleasable k i ?st1"
  proof -
    from reached have "sane ?st" by (simp add: sane_reached)
    then have "sane ?st1" by (simp add: sane_def)
    moreover from l have "live k i ?st1" by (simp add: live_def)
    ultimately have "leak (Some (k, i)) ?st1" using u by (simp add: leak_def)
    then have "leak (Some (k, i)) (mstate ?m')" unfolding st' by simp
    then have "leak (Some (k, i)) (mstate (run pf ops ?m'))" for ops by (rule leak_run)
    then show ?thesis by (simp add: leak_def)
  qed
  from frame same later show ?thesis by blast
qed

text \<open>The state after listening, receiving a round-robin handle, closing it and listening
  again on the same endpoint: the second query holds index 0 again, and so does the closed
  handle object.\<close>

lemma listen_again_state:
  "running (run posix listen_close_listen boot)"
  "callbacks (mstate (run posix listen_close_listen boot)) = [None, Some (OnReply False ''a:80:4:'' 0)]"
  "heap (mstate (run posix listen_close_listen boot)) =
     [\<lparr>kind = Faux, hkey = Undefined, hindexesKey = ''a:80:4:'', hindex = 0,
        hsockname = Some [''port'' \<mapsto> JNum 80], owner = False, has_onconnection = False\<rparr>]"
  "indexes (mstate (run posix listen_close_listen boot)) ''a:80:4:'' = Some \<lparr>nextIndex = 1, iset = {0}\<rparr>"
  "trace (mstate (run posix listen_close_listen boot)) =
     [Send Online, Send (QueryServer 0 Null port80), Callback (JNum 0) (Some 0),
      Send (CloseMsg (JStr ''a:80:4::0'')), Send (QueryServer 0 Null port80)]"
  by (simp_all add: listen_close_listen_def run_def run_defs)

text \<open>The amended claim at that second query, answered with \<^verbatim>\<open>errno = -98\<close>: the closed
  round-robin handle carries the same key and index and can release nothing; later it is
  closed again, the worker listens once more and disconnects, and index 0 is still live.\<close>

theorem failed_query_keeps_index_witness:
  "running (run posix listen_close_listen boot)
   \<and> callbacks (mstate (run posix listen_close_listen boot)) ! 1 = Some (OnReply False ''a:80:4:'' 0)
   \<and> truthy (errno err_reply)
   \<and> live ''a:80:4:'' 0 (mstate (run posix listen_close_listen boot))
   \<and> unreleasable ''a:80:4:'' 0
        ((mstate (run posix listen_close_listen boot))
           \<lparr>callbacks := (callbacks (mstate (run posix listen_close_listen boot)))[1 := None]\<rparr>)
   \<and> hindexesKey (heap (mstate (run posix listen_close_listen boot)) ! 0) = ''a:80:4:''
   \<and> hindex (heap (mstate (run posix listen_close_listen boot)) ! 0) = 0
   \<and> trace (mstate (step posix (Acked 1 err_reply False) (run posix listen_close_listen boot))) =
        [Send Online, Send (QueryServer 0 Null port80), Callback (JNum 0) (Some 0),
         Send (CloseMsg (JStr ''a:80:4::0'')), Send (QueryServer 0 Null port80),
         Callback (JNum (- 98)) None]
   \<and> live ''a:80:4:'' 0
        (mstate (run posix [Close 0 False, GetServer plain_server port80, Disconnect no_closers]
           (step posix (Acked 1 err_reply False) (run posix listen_close_listen boot))))"
proof -
  let ?m = "run posix listen_close_listen boot"
  have r: "running ?m" by (rule listen_again_state(1))
  have n: "1 < length (callbacks (mstate ?m))" by (simp add: listen_again_state)
  have c: "callbacks (mstate ?m) ! 1 = Some (OnReply False ''a:80:4:'' 0)"
    by (simp add: listen_again_state)
  have t: "truthy (errno err_reply)" by (simp add: err_reply_def)
  have l: "live ''a:80:4:'' 0 (mstate ?m)" by (simp add: listen_again_state live_def)
  have u: "unreleasable ''a:80:4:'' 0 ((mstate ?m)\<lparr>callbacks := (callbacks (mstate ?m))[1 := None]\<rparr>)"
    by (simp add: listen_again_state unreleasable_def can_release_def)
  have o: "hindexesKey (heap (mstate ?m) ! 0) = ''a:80:4:''" "hindex (heap (mstate ?m) ! 0) = 0"
    by (simp_all add: listen_again_state)
  note main = failed_query_keeps_index [OF r n c t, of posix listen_close_listen]
  from main l u have later: "live ''a:80:4:'' 0
        (mstate (run posix [Close 0 False, GetServer plain_server port80, Disconnect no_closers]
           (step posix (Acked 1 err_reply False) ?m)))" by blast
  from main have tr: "trace (mstate (step posix (Acked 1 err_reply False) ?m)) =
        [Send Online, Send (QueryServer 0 Null port80), Callback (JNum 0) (Some 0),
         Send (CloseMsg (JStr ''a:80:4::0'')), Send (QueryServer 0 Null port80),
         Callback (JNum (- 98)) None]"
    by (simp add: listen_again_state err_reply_def)
  show ?thesis
    apply (intro conjI)
    apply (rule r c t l u o tr later)+
    done
qed

text \<open>Claim C10 as stated fails when a shared handle of an earlier generation of the index
  set carries the same index: a shared handle obtained index 0 and was closed, which deleted
  the index set; the next query obtained index 0 again and failed; closing the old shared
  handle once more releases index 0 and deletes the index set.\<close>

theorem stale_close_releases_failed_index:
  "trace (mstate (run posix (listen_close_fail @ [Acked 1 err_reply False]) boot)) =
     [Send Online, Send (QueryServer 0 Null port80), Callback Null (Some 0),
      Send (CloseMsg (JStr ''a:80:4::0'')), NativeClose 0 False,
      Send (QueryServer 0 Null port80), Callback (JNum (- 98)) None]
   \<and> live ''a:80:4:'' 0 (mstate (run posix (listen_close_fail @ [Acked 1 err_reply False]) boot))
   \<and> \<not> live ''a:80:4:'' 0 (mstate (run posix (listen_close_fail @ [Acked 1 err_reply False, Close 0 False]) boot))
   \<and> indexes (mstate (run posix (listen_close_fail @ [Acked 1 err_reply False, Close 0 False]) boot)) ''a:80:4:'' = None"
  by (simp add: listen_close_fail_def run_def run_defs live_def)

end
